theory Spec2Isabelle
  imports Complex_Main "HOL-Library.Multiset" "HOL-Library.Word"
begin

section \<open>Numbers\<close>

text \<open>
  The program computes with JavaScript numbers: IEEE 754 double precision values. A
  finite double is a real number \<open>k * 2^j\<close> with \<open>|k| < 2^53\<close> and
  \<open>-1074 <= j <= 971\<close>. Every arithmetic operation returns the exact result rounded to
  the nearest double, ties to the even significand (\<open>rnd\<close>); \<open>expo\<close> is the exponent of
  the binade of a real number, not below that of the subnormal numbers, and \<open>ulp\<close> the
  distance of neighbouring doubles in that binade. A rounded result of magnitude
  \<open>2^1024\<close> (\<open>huge\<close>) or more overflows to an infinity.
\<close>

definition isDouble :: "real \<Rightarrow> bool" where
  "isDouble r \<longleftrightarrow>
     (\<exists>k j :: int. \<bar>k\<bar> < 2 ^ 53 \<and> - 1074 \<le> j \<and> j \<le> 971 \<and> r = of_int k * 2 powi j)"

definition expo :: "real \<Rightarrow> int" where
  "expo x = max \<lfloor>log 2 \<bar>x\<bar>\<rfloor> (- 1022)"

definition ulp :: "real \<Rightarrow> real" where
  "ulp x = 2 powi (expo x - 52)"

definition roundEven :: "real \<Rightarrow> int" where
  "roundEven x =
     (let f = \<lfloor>x\<rfloor> in
      if x - of_int f < 1 / 2 then f
      else if 1 / 2 < x - of_int f then f + 1
      else if even f then f else f + 1)"

definition rnd :: "real \<Rightarrow> real" where
  "rnd x = (if x = 0 then 0 else of_int (roundEven (x / ulp x)) * ulp x)"

definition huge :: real where
  "huge = 2 ^ 1024"

text \<open>
  A number is a finite double, the negative zero (the finite double 0 is the positive
  zero), an infinity or NaN. \<open>toNumber neg v\<close> is the number for the exact result \<open>v\<close>
  of an operation, \<open>neg\<close> being the sign of a result that is zero or rounds to zero;
  \<open>D v\<close> is the number that the numeric literal \<open>v\<close> denotes. The arithmetic follows
  IEEE 754: signed zeros and infinities, NaN for \<open>0/0\<close>, \<open>Infinity - Infinity\<close> and
  \<open>0 * Infinity\<close>, every comparison with NaN false, \<open>Math.max\<close> and \<open>Math.min\<close>
  ordering the negative zero below the positive zero, \<open>Math.sqrt\<close> correctly rounded.
  \<open>nlt a b\<close> is \<open>a < b\<close>, \<open>nle a b\<close> is \<open>a <= b\<close>, \<open>nne a b\<close> is \<open>a !== b\<close>.
\<close>

typedef dbl = "{r :: real. isDouble r}"
  morphisms val Dbl
proof
  have "\<bar>0 :: int\<bar> < 2 ^ 53 \<and> - 1074 \<le> (0 :: int) \<and> (0 :: int) \<le> 971 \<and>
      (0 :: real) = of_int 0 * 2 powi 0"
    by simp
  then show "0 \<in> {r :: real. isDouble r}"
    unfolding isDouble_def by blast
qed

datatype number = Fin dbl | MZero | PInf | NInf | NaN

fun nval :: "number \<Rightarrow> real" where
  "nval (Fin a) = val a"
| "nval _ = 0"

fun negative :: "number \<Rightarrow> bool" where
  "negative (Fin a) = (val a < 0)"
| "negative MZero = True"
| "negative NInf = True"
| "negative _ = False"

fun isZero :: "number \<Rightarrow> bool" where
  "isZero (Fin a) = (val a = 0)"
| "isZero MZero = True"
| "isZero _ = False"

fun isInf :: "number \<Rightarrow> bool" where
  "isInf PInf = True"
| "isInf NInf = True"
| "isInf _ = False"

fun isFinite :: "number \<Rightarrow> bool" where
  "isFinite (Fin a) = True"
| "isFinite MZero = True"
| "isFinite _ = False"

definition signedInf :: "bool \<Rightarrow> number" where
  "signedInf neg = (if neg then NInf else PInf)"

definition signedZero :: "bool \<Rightarrow> number" where
  "signedZero neg = (if neg then MZero else Fin (Dbl 0))"

definition toNumber :: "bool \<Rightarrow> real \<Rightarrow> number" where
  "toNumber neg v =
     (let r = rnd v in
      if huge \<le> r then PInf
      else if r \<le> - huge then NInf
      else if r = 0 then signedZero neg
      else Fin (Dbl r))"

definition D :: "real \<Rightarrow> number" where
  "D v = toNumber False v"

fun nneg :: "number \<Rightarrow> number" where
  "nneg (Fin a) = (if val a = 0 then MZero else Fin (Dbl (- val a)))"
| "nneg MZero = Fin (Dbl 0)"
| "nneg PInf = NInf"
| "nneg NInf = PInf"
| "nneg NaN = NaN"

definition nadd :: "number \<Rightarrow> number \<Rightarrow> number" where
  "nadd a b =
     (if a = NaN \<or> b = NaN then NaN
      else if isInf a then (if isInf b \<and> b \<noteq> a then NaN else a)
      else if isInf b then b
      else toNumber (negative a \<and> negative b) (nval a + nval b))"

definition nsub :: "number \<Rightarrow> number \<Rightarrow> number" where
  "nsub a b = nadd a (nneg b)"

definition nmul :: "number \<Rightarrow> number \<Rightarrow> number" where
  "nmul a b =
     (if a = NaN \<or> b = NaN then NaN
      else if (isInf a \<and> isZero b) \<or> (isZero a \<and> isInf b) then NaN
      else if isInf a \<or> isInf b then signedInf (negative a \<noteq> negative b)
      else toNumber (negative a \<noteq> negative b) (nval a * nval b))"

definition ndiv :: "number \<Rightarrow> number \<Rightarrow> number" where
  "ndiv a b =
     (if a = NaN \<or> b = NaN then NaN
      else if (isInf a \<and> isInf b) \<or> (isZero a \<and> isZero b) then NaN
      else if isInf a \<or> isZero b then signedInf (negative a \<noteq> negative b)
      else if isInf b then signedZero (negative a \<noteq> negative b)
      else toNumber (negative a \<noteq> negative b) (nval a / nval b))"

definition nsqrt :: "number \<Rightarrow> number" where
  "nsqrt a =
     (if a = NaN then NaN
      else if isZero a then a
      else if negative a then NaN
      else if a = PInf then PInf
      else toNumber False (sqrt (nval a)))"

fun nlt :: "number \<Rightarrow> number \<Rightarrow> bool" where
  "nlt NaN b = False"
| "nlt a NaN = False"
| "nlt a NInf = False"
| "nlt PInf b = False"
| "nlt NInf b = True"
| "nlt a PInf = True"
| "nlt a b = (nval a < nval b)"

fun nle :: "number \<Rightarrow> number \<Rightarrow> bool" where
  "nle NaN b = False"
| "nle a NaN = False"
| "nle NInf b = True"
| "nle a PInf = True"
| "nle a NInf = False"
| "nle PInf b = False"
| "nle a b = (nval a \<le> nval b)"

definition nne :: "number \<Rightarrow> number \<Rightarrow> bool" where
  "nne a b \<longleftrightarrow> a = NaN \<or> b = NaN \<or> (a \<noteq> b \<and> \<not> (isZero a \<and> isZero b))"

definition nmax :: "number \<Rightarrow> number \<Rightarrow> number" where
  "nmax a b =
     (if a = NaN \<or> b = NaN then NaN
      else if nlt a b then b
      else if nlt b a then a
      else if a = MZero then b else a)"

definition nmin :: "number \<Rightarrow> number \<Rightarrow> number" where
  "nmin a b =
     (if a = NaN \<or> b = NaN then NaN
      else if nlt b a then b
      else if nlt a b then a
      else if b = MZero then b else a)"

text \<open>
  \<open>Math.atan2(y, x)\<close> rounded correctly. \<open>atan2Pos y x\<close> is the angle of the point
  \<open>(x, y)\<close> for a \<open>y\<close> whose sign bit is clear, a real number from 0 to \<open>pi\<close>; the
  angle for the opposite \<open>y\<close> is the opposite angle.
\<close>

definition atan2Pos :: "number \<Rightarrow> number \<Rightarrow> real" where
  "atan2Pos y x =
     (if isInf y then (if x = PInf then pi / 4 else if x = NInf then 3 * pi / 4 else pi / 2)
      else if x = PInf then 0
      else if x = NInf then pi
      else if isZero y then (if negative x then pi else 0)
      else if isZero x then pi / 2
      else if 0 < nval x then arctan (nval y / nval x)
      else arctan (nval y / nval x) + pi)"

definition atan2Rounded :: "number \<Rightarrow> number \<Rightarrow> number" where
  "atan2Rounded y x =
     (if y = NaN \<or> x = NaN then NaN
      else if negative y then nneg (toNumber False (atan2Pos (nneg y) x))
      else toNumber False (atan2Pos y x))"

section \<open>Strings and utilities\<close>

text \<open>
  A string is a list of 16-bit code units. \<open>str\<close> turns a literal into a string.
\<close>

type_synonym jsString = "16 word list"

definition str :: "string \<Rightarrow> jsString" where
  "str s = map of_char s"

text \<open>
  \<open>Array.prototype.sort\<close> with a comparison function is stable; a comparison result
  that is NaN counts as zero. It is modelled as a stable insertion sort: an element moves
  behind another one only when the comparison function returns a positive number. (For a
  comparison function that is not consistent the order is left to the implementation.)
\<close>

fun insertBy :: "('a \<Rightarrow> 'a \<Rightarrow> number) \<Rightarrow> 'a \<Rightarrow> 'a list \<Rightarrow> 'a list" where
  "insertBy cmp a [] = [a]"
| "insertBy cmp a (b # bs) =
     (if nlt (D 0) (cmp a b) then b # insertBy cmp a bs else a # b # bs)"

definition sortBy :: "('a \<Rightarrow> 'a \<Rightarrow> number) \<Rightarrow> 'a list \<Rightarrow> 'a list" where
  "sortBy cmp ts = foldr (insertBy cmp) ts []"

definition sortByKeyCached :: "'a list \<Rightarrow> ('a \<Rightarrow> number) \<Rightarrow> 'a list" where
  "sortByKeyCached ts getKey =
     map snd (sortBy (\<lambda>p q. nsub (fst p) (fst q)) (map (\<lambda>t. (getKey t, t)) ts))"

text \<open>
  \<open>minByKey\<close> and \<open>maxByKey\<close>: one pass that keeps the best key seen so far, starting
  from \<open>Infinity\<close> (from \<open>-Infinity\<close>), and replaces the best element only on a strict
  improvement.
\<close>

fun minByKey_loop :: "'a list \<Rightarrow> ('a \<Rightarrow> number) \<Rightarrow> number \<Rightarrow> 'a option \<Rightarrow> 'a option" where
  "minByKey_loop [] f minKey bestT = bestT"
| "minByKey_loop (t # ts) f minKey bestT =
     (let key = f t in
      if nlt key minKey then minByKey_loop ts f key (Some t)
      else minByKey_loop ts f minKey bestT)"

definition minByKey :: "'a list \<Rightarrow> ('a \<Rightarrow> number) \<Rightarrow> 'a option" where
  "minByKey ts f = minByKey_loop ts f PInf None"

fun maxByKey_loop :: "'a list \<Rightarrow> ('a \<Rightarrow> number) \<Rightarrow> number \<Rightarrow> 'a option \<Rightarrow> 'a option" where
  "maxByKey_loop [] f maxKey bestT = bestT"
| "maxByKey_loop (t # ts) f maxKey bestT =
     (let key = f t in
      if nlt maxKey key then maxByKey_loop ts f key (Some t)
      else maxByKey_loop ts f maxKey bestT)"

definition maxByKey :: "'a list \<Rightarrow> ('a \<Rightarrow> number) \<Rightarrow> 'a option" where
  "maxByKey ts f = maxByKey_loop ts f NInf None"

section \<open>Vectors and rectangles\<close>

record Vector =
  vec_x :: number
  vec_y :: number

record Rect =
  rect_x :: number
  rect_y :: number
  rect_width :: number
  rect_height :: number

definition clamp :: "number \<Rightarrow> number \<Rightarrow> number \<Rightarrow> number" where
  "clamp a lo hi = (if nlt a lo then lo else if nlt hi a then hi else a)"

definition vectorMagnitude :: "Vector \<Rightarrow> number" where
  "vectorMagnitude v = nsqrt (nadd (nmul (vec_x v) (vec_x v)) (nmul (vec_y v) (vec_y v)))"

definition vectorNormalize :: "Vector \<Rightarrow> Vector" where
  "vectorNormalize v =
     (let m = vectorMagnitude v in \<lparr>vec_x = ndiv (vec_x v) m, vec_y = ndiv (vec_y v) m\<rparr>)"

definition vectorAdd :: "Vector \<Rightarrow> Vector \<Rightarrow> Vector" where
  "vectorAdd a b = \<lparr>vec_x = nadd (vec_x a) (vec_x b), vec_y = nadd (vec_y a) (vec_y b)\<rparr>"

definition vectorSub :: "Vector \<Rightarrow> Vector \<Rightarrow> Vector" where
  "vectorSub a b = \<lparr>vec_x = nsub (vec_x a) (vec_x b), vec_y = nsub (vec_y a) (vec_y b)\<rparr>"

definition vectorScale :: "Vector \<Rightarrow> number \<Rightarrow> Vector" where
  "vectorScale v s = \<lparr>vec_x = nmul s (vec_x v), vec_y = nmul s (vec_y v)\<rparr>"

definition vectorDot :: "Vector \<Rightarrow> Vector \<Rightarrow> number" where
  "vectorDot a b = nadd (nmul (vec_x a) (vec_x b)) (nmul (vec_y a) (vec_y b))"

definition vectorDistance :: "Vector \<Rightarrow> Vector \<Rightarrow> number" where
  "vectorDistance a b = vectorMagnitude (vectorSub b a)"

section \<open>The vector path interpreter and the document\<close>

text \<open>
  The commands of the path parser. The first argument of the drawing commands is the
  \<open>relative\<close> flag. The curve commands carry coordinates too, which the interpreter never
  reads.
\<close>

datatype Command =
    Moveto bool number number
  | Lineto bool number number
  | HorizontalLineto bool number
  | VerticalLineto bool number
  | Closepath
  | Curveto
  | SmoothCurveto
  | QuadraticCurveto
  | SmoothQuadraticCurveto
  | EllipticalArc

text \<open>
  The nodes follow the type declarations of the document parser: a root has exactly one
  child, an element may have a tag name and properties, the value of a property is a
  string or a number, a child is a node or a string.
\<close>

datatype Property = PString jsString | PNumber number

datatype Node =
    TextNode
  | ElementNode "jsString option" "(jsString \<Rightarrow> Property option) option" "Child list"
and Child = ChildNode Node | ChildString jsString

text \<open>
  What the program takes from outside the repository is a parameter of the model. The
  document parser \<open>parse\<close> and the path parser \<open>parseSVG\<close> return \<open>None\<close> where the
  library throws; \<open>parseFloat\<close> returns NaN where no number can be read. The value of
  \<open>Math.atan2\<close> is an approximation that the language leaves to the implementation.
  \<open>formatNumber\<close> is \<open>Number.prototype.toString\<close> on the numbers that are not treated
  below: the finite numbers other than the whole numbers from 0 to \<open>2^53\<close>.
\<close>

record Runtime =
  parse :: "jsString \<Rightarrow> Node option"
  parseSVG :: "jsString \<Rightarrow> Command list option"
  parseFloat :: "jsString \<Rightarrow> number"
  atan2 :: "number \<Rightarrow> number \<Rightarrow> number"
  formatNumber :: "number \<Rightarrow> jsString"

definition vectorAngle :: "Runtime \<Rightarrow> Vector \<Rightarrow> number" where
  "vectorAngle R v = atan2 R (vec_y v) (vec_x v)"

definition RIGHT :: Vector where "RIGHT = \<lparr>vec_x = D 1, vec_y = D 0\<rparr>"
definition DOWN :: Vector where "DOWN = \<lparr>vec_x = D 0, vec_y = D 1\<rparr>"
definition LEFT :: Vector where "LEFT = \<lparr>vec_x = D (- 1), vec_y = D 0\<rparr>"
definition UP :: Vector where "UP = \<lparr>vec_x = D 0, vec_y = D (- 1)\<rparr>"

definition THRESHOLD :: number where
  "THRESHOLD = nsub (D 1) (D (1 / 1000))"

definition centroid :: "Vector list \<Rightarrow> Vector" where
  "centroid points =
     vectorScale (foldl vectorAdd \<lparr>vec_x = D 0, vec_y = D 0\<rparr> points) (ndiv (D 1) (D 4))"

definition sortPoints :: "Runtime \<Rightarrow> Vector list \<Rightarrow> Vector list" where
  "sortPoints R points =
     sortByKeyCached points (\<lambda>p. vectorAngle R (vectorSub p (centroid points)))"

definition pointsToRect :: "Runtime \<Rightarrow> Vector list \<Rightarrow> Rect option" where
  "pointsToRect R points =
     (if length points \<noteq> 4 then None
      else
        let sorted = sortPoints R points;
            tl = sorted ! 0;
            tr = sorted ! 1;
            br = sorted ! 2;
            bl = sorted ! 3
        in
          if nlt (vectorDot (vectorNormalize (vectorSub tr tl)) RIGHT) THRESHOLD \<or>
             nlt (vectorDot (vectorNormalize (vectorSub br tr)) DOWN) THRESHOLD \<or>
             nlt (vectorDot (vectorNormalize (vectorSub bl br)) LEFT) THRESHOLD \<or>
             nlt (vectorDot (vectorNormalize (vectorSub tl bl)) UP) THRESHOLD
          then None
          else Some \<lparr>
            rect_x = ndiv (nadd (vec_x tl) (vec_x bl)) (D 2),
            rect_y = ndiv (nadd (vec_y tl) (vec_y tr)) (D 2),
            rect_width =
              ndiv (nsub (nadd (nsub (vec_x tr) (vec_x tl)) (vec_x br)) (vec_x bl)) (D 2),
            rect_height =
              ndiv (nsub (nadd (nsub (vec_y bl) (vec_y tl)) (vec_y br)) (vec_y tr)) (D 2)\<rparr>)"

text \<open>
  The \<open>closepath\<close> case of the \<open>switch\<close>: reconstruct a rectangle from the point list,
  keep it if there is one, and clear the point list.
\<close>

definition closeShape :: "Runtime \<Rightarrow> Rect list \<Rightarrow> Vector list \<Rightarrow> Rect list" where
  "closeShape R rects points =
     (case pointsToRect R points of None \<Rightarrow> rects | Some rect \<Rightarrow> rects @ [rect])"

text \<open>
  The loop of \<open>pathToRects\<close> over the state \<open>(rects, points, x, y)\<close>. In the source the
  case \<open>moveto\<close> has no \<open>break\<close> and continues in the case \<open>lineto\<close>; the case
  \<open>vertical lineto\<close> has no \<open>break\<close> either and continues in the case \<open>closepath\<close>.
\<close>

fun pathToRects_loop ::
  "Runtime \<Rightarrow> Command list \<Rightarrow> Rect list \<Rightarrow> Vector list \<Rightarrow> number \<Rightarrow> number \<Rightarrow> Rect list" where
  "pathToRects_loop R [] rects points x y = rects"
| "pathToRects_loop R (Moveto relative cx cy # path) rects points x y =
     (let x' = (if relative then nadd x cx else cx);
          y' = (if relative then nadd y cy else cy)
      in pathToRects_loop R path rects ([] @ [\<lparr>vec_x = x', vec_y = y'\<rparr>]) x' y')"
| "pathToRects_loop R (Lineto relative cx cy # path) rects points x y =
     (let x' = (if relative then nadd x cx else cx);
          y' = (if relative then nadd y cy else cy)
      in pathToRects_loop R path rects (points @ [\<lparr>vec_x = x', vec_y = y'\<rparr>]) x' y')"
| "pathToRects_loop R (HorizontalLineto relative cx # path) rects points x y =
     (let x' = (if relative then nadd x cx else cx)
      in pathToRects_loop R path rects (points @ [\<lparr>vec_x = x', vec_y = y\<rparr>]) x' y)"
| "pathToRects_loop R (VerticalLineto relative cy # path) rects points x y =
     (let y' = (if relative then nadd y cy else cy);
          points' = points @ [\<lparr>vec_x = x, vec_y = y'\<rparr>]
      in pathToRects_loop R path (closeShape R rects points') [] x y')"
| "pathToRects_loop R (Closepath # path) rects points x y =
     pathToRects_loop R path (closeShape R rects points) [] x y"
| "pathToRects_loop R (Curveto # path) rects points x y = rects"
| "pathToRects_loop R (SmoothCurveto # path) rects points x y = rects"
| "pathToRects_loop R (QuadraticCurveto # path) rects points x y = rects"
| "pathToRects_loop R (SmoothQuadraticCurveto # path) rects points x y = rects"
| "pathToRects_loop R (EllipticalArc # path) rects points x y = rects"

definition pathToRects :: "Runtime \<Rightarrow> Command list \<Rightarrow> Rect list" where
  "pathToRects R path = pathToRects_loop R path [] [] (D 0) (D 0)"

fun elementNodeToPathD ::
  "jsString option \<Rightarrow> (jsString \<Rightarrow> Property option) option \<Rightarrow> jsString option" where
  "elementNodeToPathD (Some tag) (Some props) =
     (if tag = str ''path'' then (case props (str ''d'') of Some (PString d) \<Rightarrow> Some d | _ \<Rightarrow> None)
      else None)"
| "elementNodeToPathD tag props = None"

fun getPathDs :: "Node \<Rightarrow> jsString list"
  and getPathDs_children :: "Child list \<Rightarrow> jsString list" where
  "getPathDs TextNode = []"
| "getPathDs (ElementNode tag props ms) =
     (case elementNodeToPathD tag props of
        Some path \<Rightarrow> [path]
      | None \<Rightarrow> getPathDs_children ms)"
| "getPathDs_children [] = []"
| "getPathDs_children (ChildNode m # ms) = getPathDs m @ getPathDs_children ms"
| "getPathDs_children (ChildString s # ms) = getPathDs_children ms"

fun findRects_loop :: "Runtime \<Rightarrow> jsString list \<Rightarrow> Rect list \<Rightarrow> Rect list option" where
  "findRects_loop R [] rects = Some rects"
| "findRects_loop R (d # ds) rects =
     (case parseSVG R d of
        None \<Rightarrow> None
      | Some path \<Rightarrow> findRects_loop R ds (rects @ pathToRects R path))"

definition findRects :: "Runtime \<Rightarrow> Node \<Rightarrow> Rect list option" where
  "findRects R root_child = findRects_loop R (getPathDs root_child) []"

text \<open>
  The white space of \<open>trim\<close> and of \<open>\s\<close>: the white space and line terminator code
  units of the language.
\<close>

definition isWhiteSpace :: "16 word \<Rightarrow> bool" where
  "isWhiteSpace c \<longleftrightarrow>
     c \<in> {0x9, 0xA, 0xB, 0xC, 0xD, 0x20, 0xA0, 0x1680, 0x2028, 0x2029, 0x202F, 0x205F,
          0x3000, 0xFEFF} \<or>
     (0x2000 \<le> c \<and> c \<le> 0x200A)"

definition trim :: "jsString \<Rightarrow> jsString" where
  "trim s = rev (dropWhile isWhiteSpace (rev (dropWhile isWhiteSpace s)))"

text \<open>\<open>replaceAll(/\s+/g, " ")\<close>: every maximal run of white space becomes one space.\<close>

function collapseWhiteSpace :: "jsString \<Rightarrow> jsString" where
  "collapseWhiteSpace [] = []"
| "collapseWhiteSpace (c # cs) =
     (if isWhiteSpace c then 0x20 # collapseWhiteSpace (dropWhile isWhiteSpace cs)
      else c # collapseWhiteSpace cs)"
  by pat_completeness auto
termination
  by (relation "measure length") (auto simp: less_Suc_eq_le length_dropWhile_le)

text \<open>\<open>split(" ")\<close>: the pieces between the spaces; an empty string gives one empty piece.\<close>

fun splitSpace :: "jsString \<Rightarrow> jsString list" where
  "splitSpace [] = [[]]"
| "splitSpace (c # cs) =
     (if c = 0x20 then [] # splitSpace cs
      else (case splitSpace cs of [] \<Rightarrow> [[c]] | t # ts \<Rightarrow> (c # t) # ts))"

definition tryParseFloat :: "Runtime \<Rightarrow> jsString \<Rightarrow> number option" where
  "tryParseFloat R s = (let a = parseFloat R s in if a \<noteq> NaN then Some a else None)"

fun viewBoxProperty :: "Node \<Rightarrow> jsString option" where
  "viewBoxProperty (ElementNode tag (Some props) ms) =
     (case props (str ''viewBox'') of Some (PString s) \<Rightarrow> Some s | _ \<Rightarrow> None)"
| "viewBoxProperty node = None"

definition getViewBox :: "Runtime \<Rightarrow> Node \<Rightarrow> Rect option" where
  "getViewBox R node =
     (case viewBoxProperty node of
        None \<Rightarrow> None
      | Some s \<Rightarrow>
          (case splitSpace (collapseWhiteSpace (trim s)) of
             [leftString, topString, rightString, bottomString] \<Rightarrow>
               (case (tryParseFloat R leftString, tryParseFloat R topString,
                      tryParseFloat R rightString, tryParseFloat R bottomString) of
                  (Some left', Some top', Some right', Some bottom') \<Rightarrow>
                    Some \<lparr>rect_x = left', rect_y = top',
                          rect_width = nsub right' left', rect_height = nsub bottom' top'\<rparr>
                | _ \<Rightarrow> None)
           | _ \<Rightarrow> None))"

record Svg =
  svg_rects :: "Rect list"
  svg_width :: number
  svg_height :: number

definition parseSvg :: "Runtime \<Rightarrow> jsString \<Rightarrow> Svg option" where
  "parseSvg R svg =
     (case parse R svg of
        None \<Rightarrow> None
      | Some root_child \<Rightarrow>
          (case findRects R root_child of
             None \<Rightarrow> None
           | Some rects \<Rightarrow>
               (case getViewBox R root_child of
                  None \<Rightarrow> None
                | Some viewBox \<Rightarrow>
                    if nne (rect_x viewBox) (D 0) \<or> nne (rect_y viewBox) (D 0) then None
                    else Some \<lparr>svg_rects = rects, svg_width = rect_width viewBox,
                               svg_height = rect_height viewBox\<rparr>)))"

section \<open>Segments, edges and cell names\<close>

record Segment =
  seg_start :: Vector
  seg_end :: Vector

definition segmentLength :: "Segment \<Rightarrow> number" where
  "segmentLength s = vectorDistance (seg_start s) (seg_end s)"

definition segmentClosestPoint :: "Segment \<Rightarrow> Vector \<Rightarrow> Vector" where
  "segmentClosestPoint s p =
     (let dir = vectorNormalize (vectorSub (seg_end s) (seg_start s));
          mag = vectorDot (vectorSub p (seg_start s)) dir;
          offset = vectorScale dir (clamp mag (D 0) (segmentLength s))
      in vectorAdd (seg_start s) offset)"

definition pointSegmentDistance :: "Segment \<Rightarrow> Vector \<Rightarrow> number" where
  "pointSegmentDistance s p = vectorDistance p (segmentClosestPoint s p)"

text \<open>
  An edge has a kind, a position and one extent: the width of a top or bottom edge, the
  height of a left or right edge.
\<close>

datatype Kind = Top | Bottom | Left | Right

datatype Edge = Edge (kind: Kind) (edge_x: number) (edge_y: number) (extent: number)

definition edgeToSegment :: "Edge \<Rightarrow> Segment" where
  "edgeToSegment e =
     (case kind e of
        Top \<Rightarrow> \<lparr>seg_start = \<lparr>vec_x = edge_x e, vec_y = edge_y e\<rparr>,
                seg_end = \<lparr>vec_x = nadd (edge_x e) (extent e), vec_y = edge_y e\<rparr>\<rparr>
      | Bottom \<Rightarrow> \<lparr>seg_start = \<lparr>vec_x = edge_x e, vec_y = edge_y e\<rparr>,
                seg_end = \<lparr>vec_x = nadd (edge_x e) (extent e), vec_y = edge_y e\<rparr>\<rparr>
      | Left \<Rightarrow> \<lparr>seg_start = \<lparr>vec_x = edge_x e, vec_y = edge_y e\<rparr>,
                seg_end = \<lparr>vec_x = edge_x e, vec_y = nadd (edge_y e) (extent e)\<rparr>\<rparr>
      | Right \<Rightarrow> \<lparr>seg_start = \<lparr>vec_x = edge_x e, vec_y = edge_y e\<rparr>,
                seg_end = \<lparr>vec_x = edge_x e, vec_y = nadd (edge_y e) (extent e)\<rparr>\<rparr>)"

text \<open>The row of a cell position is a number like every other number of the program.\<close>

record CellPosition =
  column :: jsString
  row :: number

definition isColumnChar :: "16 word \<Rightarrow> bool" where
  "isColumnChar c \<longleftrightarrow> c \<in> set (str ''abcdefgh'')"

definition isDigit :: "16 word \<Rightarrow> bool" where
  "isDigit c \<longleftrightarrow> c \<in> set (str ''0123456789'')"

definition digitValue :: "16 word \<Rightarrow> nat" where
  "digitValue c = unat c - 48"

text \<open>
  \<open>parseInt\<close> on a string without sign, leading white space or radix prefix: NaN if the
  string does not start with a decimal digit, and otherwise the number nearest to the value
  of its longest prefix of decimal digits, which is \<open>Infinity\<close> from about 309 digits on.
  (Beyond 20 significant digits the language allows an implementation to read the further
  digits as zeros.)
\<close>

definition parseInt :: "jsString \<Rightarrow> number" where
  "parseInt s =
     (let ds = takeWhile isDigit s in
      if ds = [] then NaN
      else toNumber False (of_nat (foldl (\<lambda>a c. 10 * a + digitValue c) 0 ds)))"

text \<open>The regular expression \<open>/^([a-h])(\d+)$/\<close>: the two groups of a match.\<close>

fun matchCellName :: "jsString \<Rightarrow> (jsString \<times> jsString) option" where
  "matchCellName [] = None"
| "matchCellName (c # ds) =
     (if isColumnChar c \<and> ds \<noteq> [] \<and> list_all isDigit ds then Some ([c], ds) else None)"

definition cellNameToCellPosition :: "jsString \<Rightarrow> CellPosition option" where
  "cellNameToCellPosition name =
     (case matchCellName name of
        None \<Rightarrow> None
      | Some (col, rowString) \<Rightarrow>
          (let r = parseInt rowString in
           if r = NaN then None else Some \<lparr>column = col, row = r\<rparr>))"

definition digitChar :: "nat \<Rightarrow> 16 word" where
  "digitChar d = str ''0123456789'' ! d"

text \<open>The decimal digits of a whole number that is not negative.\<close>

fun natToString :: "nat \<Rightarrow> jsString" where
  "natToString n =
     (if n < 10 then [digitChar n] else natToString (n div 10) @ [digitChar (n mod 10)])"

declare natToString.simps [simp del]

text \<open>
  \<open>Number.prototype.toString\<close>. A whole number from 1 to \<open>2^53\<close> is printed with all its
  decimal digits.
\<close>

definition numberToString :: "Runtime \<Rightarrow> number \<Rightarrow> jsString" where
  "numberToString R n =
     (if n = NaN then str ''NaN''
      else if isZero n then str ''0''
      else if n = PInf then str ''Infinity''
      else if n = NInf then str ''-Infinity''
      else if 0 < nval n \<and> nval n \<le> 2 ^ 53 \<and> nval n = of_int \<lfloor>nval n\<rfloor>
      then natToString (nat \<lfloor>nval n\<rfloor>)
      else formatNumber R n)"

definition cellPositionToCellName :: "Runtime \<Rightarrow> CellPosition \<Rightarrow> jsString" where
  "cellPositionToCellName R p = column p @ numberToString R (row p)"

section \<open>The editor\<close>

text \<open>
  The creation counter starts at 0 and grows by one with every cell; it is a natural
  number here.
\<close>

record Cell =
  cell_id :: nat
  cell_name :: jsString
  cell_rect :: Rect

record SelectedEdges =
  sel_top :: "Edge option"
  sel_right :: "Edge option"
  sel_bottom :: "Edge option"
  sel_left :: "Edge option"

record EditorState =
  svgUrl :: jsString
  svgWidth :: number
  svgHeight :: number
  edges :: "Edge list"
  highlightedEdge :: "Edge option"
  selectedEdges :: SelectedEdges
  cells :: "Cell list"
  cellCreatedCount :: nat

text \<open>The loop of \<open>handleSvgInput\<close> over the rectangles of the document.\<close>

fun handleSvgInput_loop :: "Rect list \<Rightarrow> Edge list \<Rightarrow> Edge list" where
  "handleSvgInput_loop [] es = es"
| "handleSvgInput_loop (r # rs) es =
     (let ratio = ndiv (nmax (rect_width r) (rect_height r)) (nmin (rect_width r) (rect_height r))
      in if nlt ratio (D 11) then handleSvgInput_loop rs es
         else handleSvgInput_loop rs
           (es @ [Edge Top (rect_x r) (rect_y r) (rect_width r),
                  Edge Bottom (rect_x r) (nadd (rect_y r) (rect_height r)) (rect_width r),
                  Edge Left (rect_x r) (rect_y r) (rect_height r),
                  Edge Right (nadd (rect_x r) (rect_width r)) (rect_y r) (rect_height r)]))"

text \<open>The editor that \<open>handleSvgInput\<close> installs for a parsed document.\<close>

definition handleSvgInput :: "jsString \<Rightarrow> Svg \<Rightarrow> EditorState" where
  "handleSvgInput url svg =
     \<lparr>svgUrl = url, svgWidth = svg_width svg, svgHeight = svg_height svg,
      edges = handleSvgInput_loop (svg_rects svg) [],
      highlightedEdge = None,
      selectedEdges = \<lparr>sel_top = None, sel_right = None, sel_bottom = None, sel_left = None\<rparr>,
      cells = [], cellCreatedCount = 0\<rparr>"

definition slot :: "SelectedEdges \<Rightarrow> Kind \<Rightarrow> Edge option" where
  "slot sel k =
     (case k of Top \<Rightarrow> sel_top sel | Right \<Rightarrow> sel_right sel
              | Bottom \<Rightarrow> sel_bottom sel | Left \<Rightarrow> sel_left sel)"

definition setSlot :: "Edge \<Rightarrow> SelectedEdges \<Rightarrow> SelectedEdges" where
  "setSlot e sel =
     (case kind e of
        Top \<Rightarrow> sel\<lparr>sel_top := Some e\<rparr>
      | Right \<Rightarrow> sel\<lparr>sel_right := Some e\<rparr>
      | Bottom \<Rightarrow> sel\<lparr>sel_bottom := Some e\<rparr>
      | Left \<Rightarrow> sel\<lparr>sel_left := Some e\<rparr>)"

definition getClosestSelectableEdge ::
  "number \<Rightarrow> EditorState \<Rightarrow> Vector \<Rightarrow> Edge option" where
  "getClosestSelectableEdge viewScale app p =
     (let es = filter (\<lambda>e. slot (selectedEdges app) (kind e) = None) (edges app) in
      case minByKey es (\<lambda>e. pointSegmentDistance (edgeToSegment e) p) of
        None \<Rightarrow> None
      | Some e \<Rightarrow>
          if nlt (pointSegmentDistance (edgeToSegment e) p) (ndiv (D 50) viewScale)
          then Some e else None)"

text \<open>
  \<open>handleClick\<close>. The argument \<open>pos\<close> is the result of \<open>mouseEventToCursorPosition\<close>,
  \<open>None\<close> when the event does not hit the image; \<open>viewScale\<close> and
  \<open>keepVerticalSelection\<close> are the properties of the component.
\<close>

definition handleClick ::
  "Runtime \<Rightarrow> number \<Rightarrow> bool \<Rightarrow> Vector option \<Rightarrow> EditorState \<Rightarrow> EditorState" where
  "handleClick R viewScale keepVerticalSelection pos editor =
     (case pos of
        None \<Rightarrow> editor
      | Some p \<Rightarrow>
          (case getClosestSelectableEdge viewScale editor p of
             None \<Rightarrow> editor
           | Some closest \<Rightarrow>
               let sel = setSlot closest (selectedEdges editor) in
               (case (sel_top sel, sel_right sel, sel_bottom sel, sel_left sel) of
                  (Some t, Some r, Some b, Some l) \<Rightarrow>
                    let created = cellCreatedCount editor + 1;
                        rect = \<lparr>rect_x = edge_x r, rect_y = edge_y b,
                                rect_width = nsub (edge_x l) (edge_x r),
                                rect_height = nsub (edge_y t) (edge_y b)\<rparr>;
                        centerX = nadd (rect_x rect) (ndiv (rect_width rect) (D 2));
                        topY = rect_y rect;
                        alignedCells = filter
                          (\<lambda>c. nlt (nadd (rect_y (cell_rect c)) (rect_height (cell_rect c))) topY \<and>
                               nle (rect_x (cell_rect c)) centerX \<and>
                               nle centerX (nadd (rect_x (cell_rect c)) (rect_width (cell_rect c))))
                          (cells editor);
                        cellAbove = maxByKey alignedCells
                          (\<lambda>c. nadd (rect_y (cell_rect c)) (rect_height (cell_rect c)));
                        name =
                          (case cellAbove of
                             None \<Rightarrow> natToString created
                           | Some cAbove \<Rightarrow>
                               (case cellNameToCellPosition (cell_name cAbove) of
                                  None \<Rightarrow> natToString created
                                | Some q \<Rightarrow>
                                    cellPositionToCellName R (q\<lparr>row := nadd (row q) (D 1)\<rparr>)));
                        cell = \<lparr>cell_id = created, cell_name = name, cell_rect = rect\<rparr>
                    in editor\<lparr>
                         cellCreatedCount := created,
                         cells := cells editor @ [cell],
                         highlightedEdge := None,
                         selectedEdges :=
                           (if keepVerticalSelection
                            then sel\<lparr>sel_top := None, sel_bottom := None\<rparr>
                            else sel\<lparr>sel_top := None, sel_bottom := None,
                                     sel_left := None, sel_right := None\<rparr>)\<rparr>
                | _ \<Rightarrow> editor\<lparr>selectedEdges := sel\<rparr>)))"

text \<open>
  \<open>handleCellNameInput\<close>. The cell is one of the objects in \<open>editor.cells\<close> (the
  handler is bound to the cells rendered from that list); \<open>i\<close> is its position there.
  \<open>alignedCells\<close> holds references to cells of the same list, here their positions, so
  that the assignments of the loop change the cells of the editor.
\<close>

fun renameLoop ::
  "Runtime \<Rightarrow> nat list \<Rightarrow> CellPosition \<Rightarrow> nat \<Rightarrow> Cell list \<Rightarrow> Cell list" where
  "renameLoop R [] pos i cs = cs"
| "renameLoop R (j # js) pos i cs =
     renameLoop R js pos (i + 1)
       (cs[j := (cs ! j)\<lparr>cell_name :=
          cellPositionToCellName R
            \<lparr>column = column pos, row = nadd (nadd (row pos) (D (of_nat i))) (D 1)\<rparr>\<rparr>])"

definition handleCellNameInput ::
  "Runtime \<Rightarrow> nat \<Rightarrow> jsString \<Rightarrow> EditorState \<Rightarrow> EditorState" where
  "handleCellNameInput R i newName editor =
     (if \<not> i < length (cells editor) then editor
      else
        let cs = (cells editor)[i := (cells editor ! i)\<lparr>cell_name := newName\<rparr>] in
        case cellNameToCellPosition newName of
          None \<Rightarrow> editor\<lparr>cells := cs\<rparr>
        | Some pos \<Rightarrow>
            let cell = cs ! i;
                centerX = nadd (rect_x (cell_rect cell)) (ndiv (rect_width (cell_rect cell)) (D 2));
                bottomY = nadd (rect_y (cell_rect cell)) (rect_height (cell_rect cell));
                alignedCells = filter
                  (\<lambda>j. nlt bottomY (rect_y (cell_rect (cs ! j))) \<and>
                       nle (rect_x (cell_rect (cs ! j))) centerX \<and>
                       nle centerX (nadd (rect_x (cell_rect (cs ! j))) (rect_width (cell_rect (cs ! j)))))
                  [0..<length cs];
                sorted = sortBy
                  (\<lambda>a b. nsub (rect_y (cell_rect (cs ! a))) (rect_y (cell_rect (cs ! b))))
                  alignedCells
            in editor\<lparr>cells := renameLoop R sorted pos 0 cs\<rparr>)"

section \<open>Notions of the specification and examples\<close>

text \<open>
  A runtime for the examples: a document parser that knows three documents (in the third
  one a no-break space and an ideographic space separate the numbers), a path parser
  that knows one path, a \<open>parseFloat\<close> that knows four numbers, the correctly rounded
  \<open>atan2\<close>, and a \<open>formatNumber\<close> that is not used.
\<close>

definition documentWith :: "jsString \<Rightarrow> Node" where
  "documentWith viewBox =
     ElementNode (Some (str ''svg''))
       (Some (\<lambda>k. if k = str ''viewBox'' then Some (PString viewBox) else None))
       [ChildString (str ''text''),
        ChildNode (ElementNode (Some (str ''g'')) None
          [ChildNode (ElementNode (Some (str ''path''))
             (Some (\<lambda>k. if k = str ''d'' then Some (PString (str ''M0 0L0 2H2V0'')) else None))
             [])])]"

definition exampleRuntime :: Runtime where
  "exampleRuntime =
     \<lparr>parse = (\<lambda>s. if s = str ''good'' then Some (documentWith (str ''0 0  10 20 ''))
                    else if s = str ''shifted'' then Some (documentWith (str ''1 0 10 20''))
                    else if s = str ''nbsp''
                    then Some (documentWith (str ''0'' @ [0xA0] @ str ''0 10'' @ [0x3000] @ str ''20''))
                    else None),
      parseSVG = (\<lambda>d. if d = str ''M0 0L0 2H2V0''
                       then Some [Moveto False (D 0) (D 0), Lineto False (D 0) (D 2),
                                  HorizontalLineto False (D 2), VerticalLineto False (D 0)]
                       else None),
      parseFloat = (\<lambda>t. if t = str ''0'' then D 0 else if t = str ''1'' then D 1
                         else if t = str ''10'' then D 10 else if t = str ''20'' then D 20
                         else NaN),
      atan2 = atan2Rounded,
      formatNumber = (\<lambda>n. [])\<rparr>"

text \<open>
  A click completes a cell when it selects an edge and the four slots are then occupied,
  by the edges \<open>t\<close>, \<open>r\<close>, \<open>b\<close> and \<open>l\<close>. The rectangle of the new cell comes from these
  four edges.
\<close>

definition completedRect :: "Edge \<Rightarrow> Edge \<Rightarrow> Edge \<Rightarrow> Edge \<Rightarrow> Rect" where
  "completedRect t r b l =
     \<lparr>rect_x = edge_x r, rect_y = edge_y b,
      rect_width = nsub (edge_x l) (edge_x r), rect_height = nsub (edge_y t) (edge_y b)\<rparr>"

definition completes ::
  "number \<Rightarrow> EditorState \<Rightarrow> Vector \<Rightarrow> Edge \<Rightarrow> Edge \<Rightarrow> Edge \<Rightarrow> Edge \<Rightarrow> bool" where
  "completes viewScale editor p t r b l \<longleftrightarrow>
     (case getClosestSelectableEdge viewScale editor p of
        None \<Rightarrow> False
      | Some closest \<Rightarrow>
          setSlot closest (selectedEdges editor) =
            \<lparr>sel_top = Some t, sel_right = Some r, sel_bottom = Some b, sel_left = Some l\<rparr>)"

text \<open>
  A cell is aligned above a rectangle when its bottom is strictly less than the top of
  the rectangle and its horizontal span contains the horizontal center of the rectangle.
\<close>

definition cellBottom :: "Cell \<Rightarrow> number" where
  "cellBottom c = nadd (rect_y (cell_rect c)) (rect_height (cell_rect c))"

definition rectCenterX :: "Rect \<Rightarrow> number" where
  "rectCenterX r = nadd (rect_x r) (ndiv (rect_width r) (D 2))"

definition alignedAbove :: "Rect \<Rightarrow> Cell \<Rightarrow> bool" where
  "alignedAbove r c \<longleftrightarrow>
     nlt (cellBottom c) (rect_y r) \<and>
     nle (rect_x (cell_rect c)) (rectCenterX r) \<and>
     nle (rectCenterX r) (nadd (rect_x (cell_rect c)) (rect_width (cell_rect c)))"

text \<open>
  The name inferred from a cell: its column followed by its row plus one, printed as a
  number; the default name when the name of the cell does not parse.
\<close>

definition nextName :: "Runtime \<Rightarrow> nat \<Rightarrow> Cell \<Rightarrow> jsString" where
  "nextName R n c =
     (case cellNameToCellPosition (cell_name c) of
        None \<Rightarrow> natToString n
      | Some q \<Rightarrow> column q @ numberToString R (nadd (row q) (D 1)))"

text \<open>An editor with three occupied slots, one cell and a click on the remaining edge.\<close>

definition edgeT :: Edge where "edgeT = Edge Top (D 0) (D 10) (D 1)"
definition edgeR :: Edge where "edgeR = Edge Right (D 0) (D 0) (D 1)"
definition edgeB :: Edge where "edgeB = Edge Bottom (D 0) (D 0) (D 1)"
definition edgeL :: Edge where "edgeL = Edge Left (D 10) (D 0) (D 1)"

definition cellA1 :: Cell where
  "cellA1 = \<lparr>cell_id = 1, cell_name = str ''a1'',
     cell_rect = \<lparr>rect_x = D 0, rect_y = D (- 20), rect_width = D 10, rect_height = D 10\<rparr>\<rparr>"

definition editorA :: EditorState where
  "editorA =
     \<lparr>svgUrl = [], svgWidth = D 100, svgHeight = D 100,
      edges = [edgeT],
      highlightedEdge = Some edgeT,
      selectedEdges =
        \<lparr>sel_top = None, sel_right = Some edgeR, sel_bottom = Some edgeB, sel_left = Some edgeL\<rparr>,
      cells = [cellA1], cellCreatedCount = 1\<rparr>"

definition clickA :: Vector where "clickA = \<lparr>vec_x = D 0, vec_y = D 10\<rparr>"



text \<open>
  The tokens of a declared coordinate extent. The extent is malformed when it does not
  have exactly four tokens or some token is not a parseable number; its origin is not
  \<open>(0,0)\<close> when the first or the second number differs from 0.
\<close>

definition extentTokens :: "jsString \<Rightarrow> jsString list" where
  "extentTokens s = splitSpace (collapseWhiteSpace (trim s))"

definition malformedExtent :: "Runtime \<Rightarrow> jsString \<Rightarrow> bool" where
  "malformedExtent R s \<longleftrightarrow>
     length (extentTokens s) \<noteq> 4 \<or> (\<exists>t\<in>set (extentTokens s). parseFloat R t = NaN)"

definition nonOriginExtent :: "Runtime \<Rightarrow> jsString \<Rightarrow> bool" where
  "nonOriginExtent R s \<longleftrightarrow>
     nne (parseFloat R (extentTokens s ! 0)) (D 0) \<or>
     nne (parseFloat R (extentTokens s ! 1)) (D 0)"

text \<open>
  The whole number that a string of decimal digits denotes, and the number nearest to a
  whole number.
\<close>

definition decimalValue :: "jsString \<Rightarrow> nat" where
  "decimalValue ds = (\<Sum>i<length ds. digitValue (ds ! i) * 10 ^ (length ds - 1 - i))"

definition nearestNumber :: "nat \<Rightarrow> number" where
  "nearestNumber n = toNumber False (real n)"

text \<open>
  An editor like \<open>editorA\<close> whose cell has the row \<open>2^53\<close>, and one whose cell has the
  bottom \<open>-Infinity\<close>.
\<close>

definition cellBig :: Cell where
  "cellBig = \<lparr>cell_id = 1, cell_name = str ''a9007199254740992'',
     cell_rect = \<lparr>rect_x = D 0, rect_y = D (- 20), rect_width = D 10, rect_height = D 10\<rparr>\<rparr>"

definition editorBig :: EditorState where
  "editorBig = editorA\<lparr>cells := [cellBig]\<rparr>"

definition cellLow :: Cell where
  "cellLow = \<lparr>cell_id = 1, cell_name = str ''a1'',
     cell_rect = \<lparr>rect_x = D 0, rect_y = NInf, rect_width = D 10, rect_height = D 10\<rparr>\<rparr>"

definition editorLow :: EditorState where
  "editorLow = editorA\<lparr>cells := [cellLow]\<rparr>"

text \<open>
  A cell is aligned below a rectangle when its top is strictly greater than the bottom of
  the rectangle and its horizontal span contains the horizontal center of the rectangle.
  \<open>cascadeName R pos k\<close> is the name given to the cell of rank \<open>k + 1\<close> below a cell
  renamed to \<open>pos\<close>: the column followed by the row plus \<open>k\<close> plus one, printed as a
  number. \<open>topBefore cs a b\<close> orders two positions of the cell list by the top of their
  cells, equal tops by position.
\<close>

definition alignedBelow :: "Rect \<Rightarrow> Cell \<Rightarrow> bool" where
  "alignedBelow r c \<longleftrightarrow>
     nlt (nadd (rect_y r) (rect_height r)) (rect_y (cell_rect c)) \<and>
     nle (rect_x (cell_rect c)) (rectCenterX r) \<and>
     nle (rectCenterX r) (nadd (rect_x (cell_rect c)) (rect_width (cell_rect c)))"

definition cascadeName :: "Runtime \<Rightarrow> CellPosition \<Rightarrow> nat \<Rightarrow> jsString" where
  "cascadeName R pos k =
     column pos @ numberToString R (nadd (nadd (row pos) (D (real k))) (D 1))"

definition topBefore :: "Cell list \<Rightarrow> nat \<Rightarrow> nat \<Rightarrow> bool" where
  "topBefore cs a b \<longleftrightarrow>
     nlt (rect_y (cell_rect (cs ! a))) (rect_y (cell_rect (cs ! b))) \<or>
     (\<not> nlt (rect_y (cell_rect (cs ! b))) (rect_y (cell_rect (cs ! a))) \<and> a < b)"

text \<open>
  An editor whose only cell has a negative height, and an editor with two cells, one
  below the other.
\<close>

definition editorN :: EditorState where
  "editorN =
     \<lparr>svgUrl = [], svgWidth = D 100, svgHeight = D 100, edges = [],
      highlightedEdge = None,
      selectedEdges = \<lparr>sel_top = None, sel_right = None, sel_bottom = None, sel_left = None\<rparr>,
      cells = [\<lparr>cell_id = 1, cell_name = str ''1'',
                cell_rect = \<lparr>rect_x = D 0, rect_y = D 10, rect_width = D 10,
                             rect_height = D (- 5)\<rparr>\<rparr>],
      cellCreatedCount = 1\<rparr>"

definition editorW :: EditorState where
  "editorW =
     \<lparr>svgUrl = [], svgWidth = D 100, svgHeight = D 100, edges = [],
      highlightedEdge = None,
      selectedEdges = \<lparr>sel_top = None, sel_right = None, sel_bottom = None, sel_left = None\<rparr>,
      cells = [\<lparr>cell_id = 1, cell_name = str ''1'',
                cell_rect = \<lparr>rect_x = D 0, rect_y = D 0, rect_width = D 10,
                             rect_height = D 10\<rparr>\<rparr>,
               \<lparr>cell_id = 2, cell_name = str ''2'',
                cell_rect = \<lparr>rect_x = D 0, rect_y = D 20, rect_width = D 10,
                             rect_height = D 10\<rparr>\<rparr>],
      cellCreatedCount = 2\<rparr>"

lemma roundEven_of_int [simp]: "roundEven (of_int n) = n"
  by (simp add: roundEven_def)

lemma roundEven_floor: "\<lfloor>x\<rfloor> \<le> roundEven x" and roundEven_ceil: "roundEven x \<le> \<lfloor>x\<rfloor> + 1"
  by (simp_all add: roundEven_def Let_def)

lemma roundEven_mono: "x \<le> y \<Longrightarrow> roundEven x \<le> roundEven y"
proof -
  assume xy: "x \<le> y"
  then have f: "\<lfloor>x\<rfloor> \<le> \<lfloor>y\<rfloor>"
    by (rule floor_mono)
  show ?thesis
  proof (cases "\<lfloor>x\<rfloor> = \<lfloor>y\<rfloor>")
    case True
    with xy show ?thesis
      by (auto simp: roundEven_def Let_def)
  next
    case False
    with f have "\<lfloor>x\<rfloor> + 1 \<le> \<lfloor>y\<rfloor>"
      by simp
    with roundEven_ceil [of x] roundEven_floor [of y] show ?thesis
      by linarith
  qed
qed

lemma roundEven_ge: "of_int a \<le> x \<Longrightarrow> a \<le> roundEven x"
  using roundEven_mono [of "of_int a" x] by simp

lemma roundEven_le: "x \<le> of_int b \<Longrightarrow> roundEven x \<le> b"
  using roundEven_mono [of x "of_int b"] by simp

lemma roundEven_minus: "roundEven (- x) = - roundEven x"
proof (cases "x \<in> \<int>")
  case True
  then obtain n where "x = of_int n"
    by (auto elim: Ints_cases)
  then have "- x = of_int (- n)"
    by simp
  then show ?thesis
    unfolding \<open>x = of_int n\<close> by (simp only: roundEven_of_int)
next
  case False
  then have ne: "x \<noteq> of_int \<lfloor>x\<rfloor>"
    by (metis Ints_of_int)
  then have fl: "\<lfloor>- x\<rfloor> = - \<lfloor>x\<rfloor> - 1"
    by (simp add: floor_minus ceiling_altdef)
  have lt: "of_int \<lfloor>x\<rfloor> < x"
    using ne floor_correct [of x] by linarith
  show ?thesis
    unfolding roundEven_def Let_def fl
    using lt floor_correct [of x] by (auto simp: algebra_simps)
qed


lemma powr_powi: "0 < x \<Longrightarrow> x powr of_int n = x powi n" for x :: real
  by (simp add: powr_real_of_int power_int_def power_inverse)

lemma expo_minus [simp]: "expo (- x) = expo x"
  by (simp add: expo_def)

lemma expo_ge: "- 1022 \<le> expo x"
  by (simp add: expo_def)

lemma abs_less_expo: "x \<noteq> 0 \<Longrightarrow> \<bar>x\<bar> < 2 powi (expo x + 1)"
proof -
  assume x: "x \<noteq> 0"
  have "\<lfloor>log 2 \<bar>x\<bar>\<rfloor> = \<lfloor>log 2 \<bar>x\<bar>\<rfloor>" ..
  then have "\<bar>x\<bar> < 2 powr of_int (\<lfloor>log 2 \<bar>x\<bar>\<rfloor> + 1)"
    using x by (subst (asm) floor_log_eq_powr_iff) simp_all
  then have "\<bar>x\<bar> < 2 powi (\<lfloor>log 2 \<bar>x\<bar>\<rfloor> + 1)"
    by (simp only: powr_powi zero_less_numeral)
  also have "\<dots> \<le> 2 powi (expo x + 1)"
    by (intro power_int_increasing) (simp_all add: expo_def)
  finally show ?thesis .
qed

lemma expo_le_abs: "x \<noteq> 0 \<Longrightarrow> - 1022 < expo x \<Longrightarrow> 2 powi expo x \<le> \<bar>x\<bar>"
proof -
  assume x: "x \<noteq> 0" and e: "- 1022 < expo x"
  then have eq: "expo x = \<lfloor>log 2 \<bar>x\<bar>\<rfloor>"
    by (simp add: expo_def max_def split: if_splits)
  have "\<lfloor>log 2 \<bar>x\<bar>\<rfloor> = \<lfloor>log 2 \<bar>x\<bar>\<rfloor>" ..
  then have "2 powr of_int \<lfloor>log 2 \<bar>x\<bar>\<rfloor> \<le> \<bar>x\<bar>"
    using x by (subst (asm) floor_log_eq_powr_iff) simp_all
  then show ?thesis
    by (simp only: eq powr_powi zero_less_numeral)
qed

lemma expo_mono: "\<bar>x\<bar> \<le> \<bar>y\<bar> \<Longrightarrow> x \<noteq> 0 \<Longrightarrow> expo x \<le> expo y"
proof -
  assume "\<bar>x\<bar> \<le> \<bar>y\<bar>" "x \<noteq> 0"
  then have "log 2 \<bar>x\<bar> \<le> log 2 \<bar>y\<bar>"
    by (intro log_mono) simp_all
  then have "\<lfloor>log 2 \<bar>x\<bar>\<rfloor> \<le> \<lfloor>log 2 \<bar>y\<bar>\<rfloor>"
    by (rule floor_mono)
  then show ?thesis
    by (simp add: expo_def)
qed

lemma expo_le: "x \<noteq> 0 \<Longrightarrow> \<bar>x\<bar> < 2 powi (e + 1) \<Longrightarrow> - 1022 \<le> e \<Longrightarrow> expo x \<le> e"
proof -
  assume x: "x \<noteq> 0" and lt: "\<bar>x\<bar> < 2 powi (e + 1)" and e: "- 1022 \<le> e"
  have "\<bar>x\<bar> < 2 powr of_int (e + 1)"
    using lt by (simp only: powr_powi zero_less_numeral)
  then have "log 2 \<bar>x\<bar> < of_int (e + 1)"
    using x by (subst log_less_iff) simp_all
  then have "\<lfloor>log 2 \<bar>x\<bar>\<rfloor> < e + 1"
    using floor_less_iff [of "log 2 \<bar>x\<bar>" "e + 1"] by simp
  with e show ?thesis
    by (simp add: expo_def)
qed

lemma ulp_pos [simp]: "0 < ulp x"
  by (simp add: ulp_def)

lemma ulp_minus [simp]: "ulp (- x) = ulp x"
  by (simp add: ulp_def)

lemma rnd_0 [simp]: "rnd 0 = 0"
  by (simp add: rnd_def)

lemma rnd_minus: "rnd (- x) = - rnd x"
  by (simp add: rnd_def roundEven_minus)


lemma isDouble_0 [simp]: "isDouble 0"
  unfolding isDouble_def by (rule exI [of _ 0], rule exI [of _ 0]) simp

lemma isDouble_minus [simp]: "isDouble (- x) \<longleftrightarrow> isDouble x"
proof -
  have "isDouble (- y)" if "isDouble y" for y
  proof -
    from that obtain k j :: int where
      "\<bar>k\<bar> < 2 ^ 53" "- 1074 \<le> j" "j \<le> 971" "y = of_int k * 2 powi j"
      unfolding isDouble_def by blast
    then have "\<bar>- k\<bar> < 2 ^ 53 \<and> - 1074 \<le> j \<and> j \<le> 971 \<and> - y = of_int (- k) * 2 powi j"
      by simp
    then show ?thesis
      unfolding isDouble_def by blast
  qed
  from this [of x] this [of "- x"] show ?thesis
    by auto
qed

lemma rnd_pos_bounds:
  assumes x: "0 < x"
  shows "0 \<le> rnd x" and "rnd x \<le> 2 powi (expo x + 1)"
    and "- 1022 < expo x \<Longrightarrow> 2 powi expo x \<le> rnd x"
proof -
  let ?u = "ulp x"
  have r: "rnd x = of_int (roundEven (x / ?u)) * ?u"
    using x by (simp add: rnd_def)
  have "of_int 0 \<le> x / ?u"
    using x by (simp add: less_imp_le)
  then have "0 \<le> roundEven (x / ?u)"
    by (rule roundEven_ge)
  then show "0 \<le> rnd x"
    unfolding r by (intro mult_nonneg_nonneg) (simp_all add: less_imp_le)
  have "x < 2 powi (expo x + 1)"
    using abs_less_expo [of x] x by simp
  also have "2 powi (expo x + 1) = 2 ^ 53 * ?u"
    by (simp add: ulp_def power_int_diff power_int_add)
  finally have "x / ?u \<le> of_int (2 ^ 53)"
    by (simp add: pos_divide_le_eq)
  then have "roundEven (x / ?u) \<le> 2 ^ 53"
    by (rule roundEven_le)
  then have "of_int (roundEven (x / ?u)) * ?u \<le> of_int (2 ^ 53) * ?u"
    by (intro mult_right_mono) (simp_all only: of_int_le_iff ulp_pos less_imp_le)
  then show "rnd x \<le> 2 powi (expo x + 1)"
    by (simp add: r ulp_def power_int_diff power_int_add)
  assume e: "- 1022 < expo x"
  have "2 powi expo x \<le> x"
    using expo_le_abs [of x] x e by simp
  moreover have "2 powi expo x = 2 ^ 52 * ?u"
    by (simp add: ulp_def power_int_diff)
  ultimately have "of_int (2 ^ 52) \<le> x / ?u"
    by (simp add: pos_le_divide_eq)
  then have "2 ^ 52 \<le> roundEven (x / ?u)"
    by (rule roundEven_ge)
  then have "of_int (2 ^ 52) * ?u \<le> of_int (roundEven (x / ?u)) * ?u"
    by (intro mult_right_mono) (simp_all only: of_int_le_iff ulp_pos less_imp_le)
  then show "2 powi expo x \<le> rnd x"
    by (simp add: r ulp_def power_int_diff)
qed

lemma rnd_mono_pos:
  assumes x: "0 < x" and xy: "x \<le> y"
  shows "rnd x \<le> rnd y"
proof -
  have y: "0 < y"
    using x xy by simp
  have le: "expo x \<le> expo y"
    using x xy by (intro expo_mono) simp_all
  show ?thesis
  proof (cases "expo x = expo y")
    case True
    then have u: "ulp y = ulp x"
      by (simp add: ulp_def)
    have "x / ulp x \<le> y / ulp x"
      using xy by (intro divide_right_mono) (simp_all add: less_imp_le)
    then have "roundEven (x / ulp x) \<le> roundEven (y / ulp x)"
      by (rule roundEven_mono)
    then have "of_int (roundEven (x / ulp x)) * ulp x \<le> of_int (roundEven (y / ulp x)) * ulp x"
      by (intro mult_right_mono) (simp_all only: of_int_le_iff ulp_pos less_imp_le)
    then show ?thesis
      using x y by (simp add: rnd_def u)
  next
    case False
    with le have lt: "expo x + 1 \<le> expo y" and e: "- 1022 < expo y"
      using expo_ge [of x] by simp_all
    have "rnd x \<le> 2 powi (expo x + 1)"
      by (rule rnd_pos_bounds(2) [OF x])
    also have "\<dots> \<le> 2 powi expo y"
      using lt by (intro power_int_increasing) simp_all
    also have "\<dots> \<le> rnd y"
      by (rule rnd_pos_bounds(3) [OF y e])
    finally show ?thesis .
  qed
qed

lemma rnd_mono: "x \<le> y \<Longrightarrow> rnd x \<le> rnd y"
proof -
  assume xy: "x \<le> y"
  consider "0 < x" | "y < 0" | "x \<le> 0" "0 \<le> y"
    by linarith
  then show ?thesis
  proof cases
    case 1
    then show ?thesis
      using xy by (rule rnd_mono_pos)
  next
    case 2
    then have "rnd (- y) \<le> rnd (- x)"
      using xy by (intro rnd_mono_pos) simp_all
    then show ?thesis
      by (simp add: rnd_minus)
  next
    case 3
    have "rnd x \<le> 0"
    proof (cases "x = 0")
      case False
      with 3 have "0 \<le> rnd (- x)"
        by (intro rnd_pos_bounds(1)) simp
      then show ?thesis
        by (simp add: rnd_minus)
    qed simp
    moreover have "0 \<le> rnd y"
    proof (cases "y = 0")
      case False
      with 3 show ?thesis
        by (intro rnd_pos_bounds(1)) simp
    qed simp
    ultimately show ?thesis
      by simp
  qed
qed

lemma rnd_double: "isDouble x \<Longrightarrow> rnd x = x"
proof (cases "x = 0")
  case False
  assume "isDouble x"
  then obtain k j :: int where
    k: "\<bar>k\<bar> < 2 ^ 53" and j: "- 1074 \<le> j" and x: "x = of_int k * 2 powi j"
    unfolding isDouble_def by blast
  have "\<bar>x\<bar> = of_int \<bar>k\<bar> * 2 powi j"
    by (simp add: x abs_mult)
  also have "\<dots> < of_int (2 ^ 53) * 2 powi j"
    using k by (intro mult_strict_right_mono) (simp_all only: of_int_less_iff zero_less_power_int zero_less_numeral)
  also have "\<dots> = 2 powi (j + 52 + 1)"
    by (simp add: power_int_add)
  finally have "expo x \<le> j + 52"
    using False j by (intro expo_le) simp_all
  then obtain d :: nat where d: "j = expo x - 52 + int d"
    by (metis add.commute diff_le_eq zle_iff_zadd)
  define u where "u = ulp x"
  have u: "0 < u"
    by (simp add: u_def)
  have "2 powi j = (2 :: real) ^ d * u"
    unfolding u_def ulp_def by (subst d) (simp add: power_int_add)
  then have xu: "x = of_int (k * 2 ^ d) * u"
    by (simp add: x)
  then have "x / u = of_int (k * 2 ^ d)"
    using u by simp
  then have "of_int (roundEven (x / u)) * u = x"
    by (simp only: roundEven_of_int xu [symmetric])
  then show ?thesis
    using False by (simp add: rnd_def u_def)
qed simp


lemma rnd_nonneg: "0 \<le> x \<Longrightarrow> 0 \<le> rnd x"
  using rnd_mono [of 0 x] by simp

lemma rnd_nonpos: "x \<le> 0 \<Longrightarrow> rnd x \<le> 0"
  using rnd_mono [of x 0] by simp

lemma rnd_pos_imp: "0 < rnd x \<Longrightarrow> 0 < x"
  using rnd_nonpos [of x] by (cases "0 < x") simp_all

lemma rnd_neg_imp: "rnd x < 0 \<Longrightarrow> x < 0"
  using rnd_nonneg [of x] by (cases "x < 0") simp_all

lemma isDouble_powi: "- 1074 \<le> e \<Longrightarrow> e \<le> 1023 \<Longrightarrow> isDouble (2 powi e)"
proof -
  assume e: "- 1074 \<le> e" "e \<le> 1023"
  show ?thesis
  proof (cases "e \<le> 971")
    case True
    with e have "\<bar>1 :: int\<bar> < 2 ^ 53 \<and> - 1074 \<le> e \<and> e \<le> 971 \<and> 2 powi e = of_int 1 * 2 powi e"
      by simp
    then show ?thesis
      unfolding isDouble_def by blast
  next
    case False
    then obtain d :: nat where d: "e = 971 + int d"
      by (metis linorder_not_le zle_iff_zadd less_imp_le)
    with e have "d \<le> 52"
      by simp
    then have "(2 :: int) ^ d \<le> 2 ^ 52"
      by (intro power_increasing) simp_all
    then have "\<bar>(2 :: int) ^ d\<bar> < 2 ^ 53"
      by simp
    moreover have "(2 :: real) powi e = of_int (2 ^ d) * 2 powi 971"
    proof -
      have "(2 :: real) powi (971 + int d) = 2 powi 971 * 2 powi int d"
        by (rule power_int_add) simp
      moreover have "(2 :: real) powi int d = of_int (2 ^ d)"
        by (simp only: power_int_of_nat of_int_power of_int_numeral)
      ultimately show ?thesis
        by (simp only: d mult.commute)
    qed
    ultimately have "\<bar>(2 :: int) ^ d\<bar> < 2 ^ 53 \<and> - 1074 \<le> (971 :: int) \<and> (971 :: int) \<le> 971 \<and>
        (2 :: real) powi e = of_int (2 ^ d) * 2 powi 971"
      by simp
    then show ?thesis
      unfolding isDouble_def by blast
  qed
qed

lemma isDouble_rnd_pos:
  assumes x: "0 < x" and fin': "rnd x < huge"
  shows "isDouble (rnd x)"
proof -
  from fin' have fin: "rnd x < 2 ^ 1024"
    by (simp only: huge_def)
  let ?u = "ulp x"
  let ?n = "roundEven (x / ?u)"
  have r: "rnd x = of_int ?n * ?u"
    using x by (simp add: rnd_def)
  have e: "expo x \<le> 1023"
  proof (rule ccontr)
    assume "\<not> expo x \<le> 1023"
    then have "- 1022 < expo x" "1024 \<le> expo x"
      by simp_all
    then have "2 powi 1024 \<le> (2 :: real) powi expo x"
      by (intro power_int_increasing) simp_all
    also have "\<dots> \<le> rnd x"
      by (rule rnd_pos_bounds(3) [OF x \<open>- 1022 < expo x\<close>])
    finally show False
      using fin by simp
  qed
  have n0: "0 \<le> ?n"
    using x by (intro roundEven_ge) (simp add: less_imp_le)
  have "rnd x \<le> 2 powi (expo x + 1)"
    by (rule rnd_pos_bounds(2) [OF x])
  also have "2 powi (expo x + 1) = of_int (2 ^ 53) * ?u"
    by (simp add: ulp_def power_int_diff power_int_add)
  finally have "of_int ?n \<le> (of_int (2 ^ 53) :: real)"
    unfolding r by (simp only: mult_le_cancel_right_pos ulp_pos)
  then have n53: "?n \<le> 2 ^ 53"
    by (simp only: of_int_le_iff)
  show ?thesis
  proof (cases "?n = 2 ^ 53")
    case True
    then have "rnd x = 2 powi (expo x + 1)"
      by (simp add: r ulp_def power_int_diff power_int_add)
    moreover have "expo x + 1 \<le> 1023"
    proof (rule ccontr)
      assume "\<not> expo x + 1 \<le> 1023"
      with e have "expo x + 1 = 1024"
        by simp
      with \<open>rnd x = 2 powi (expo x + 1)\<close> fin show False
        by simp
    qed
    ultimately show ?thesis
      using expo_ge [of x] by (simp add: isDouble_powi)
  next
    case False
    with n53 n0 have "\<bar>?n\<bar> < 2 ^ 53"
      by simp
    moreover have "- 1074 \<le> expo x - 52" "expo x - 52 \<le> 971"
      using e expo_ge [of x] by simp_all
    ultimately have "\<bar>?n\<bar> < 2 ^ 53 \<and> - 1074 \<le> expo x - 52 \<and> expo x - 52 \<le> 971 \<and>
        rnd x = of_int ?n * 2 powi (expo x - 52)"
      by (simp add: r ulp_def)
    then show ?thesis
      unfolding isDouble_def by blast
  qed
qed

lemma isDouble_rnd: "\<bar>rnd x\<bar> < huge \<Longrightarrow> isDouble (rnd x)"
proof -
  assume fin: "\<bar>rnd x\<bar> < huge"
  consider "0 < x" | "x = 0" | "x < 0"
    by linarith
  then show ?thesis
  proof cases
    case 1
    with fin show ?thesis
      by (intro isDouble_rnd_pos) simp_all
  next
    case 2
    then show ?thesis by simp
  next
    case 3
    with fin have "isDouble (rnd (- x))"
      by (intro isDouble_rnd_pos) (simp_all add: rnd_minus)
    then show ?thesis
      by (simp add: rnd_minus)
  qed
qed

lemma rnd_idem: "\<bar>rnd x\<bar> < huge \<Longrightarrow> rnd (rnd x) = rnd x"
  by (simp add: rnd_double isDouble_rnd)

lemma isDouble_bound: "isDouble x \<Longrightarrow> \<bar>x\<bar> < huge"
proof -
  assume "isDouble x"
  then obtain k j :: int where
    k: "\<bar>k\<bar> < 2 ^ 53" and j: "j \<le> 971" and x: "x = of_int k * 2 powi j"
    unfolding isDouble_def by blast
  have "\<bar>x\<bar> = of_int \<bar>k\<bar> * 2 powi j"
    by (simp add: x abs_mult)
  also have "\<dots> \<le> of_int \<bar>k\<bar> * 2 powi 971"
    using j by (intro mult_left_mono power_int_increasing) simp_all
  also have "\<dots> < of_int (2 ^ 53) * 2 powi 971"
    using k by (intro mult_strict_right_mono) (simp_all only: of_int_less_iff zero_less_power_int zero_less_numeral)
  also have "\<dots> = huge"
    by (simp add: huge_def)
  finally show ?thesis .
qed

lemma isDouble_grid: "isDouble x \<Longrightarrow> \<exists>n :: int. x = of_int n * 2 powi (- 1074)"
proof -
  assume "isDouble x"
  then obtain k j :: int where j: "- 1074 \<le> j" and x: "x = of_int k * 2 powi j"
    unfolding isDouble_def by blast
  from j obtain d :: nat where d: "j = - 1074 + int d"
    by (metis zle_iff_zadd)
  have "(2 :: real) powi (- 1074 + int d) = 2 powi (- 1074) * 2 powi int d"
    by (rule power_int_add) simp
  moreover have "(2 :: real) powi int d = of_int (2 ^ d)"
    by (simp only: power_int_of_nat of_int_power of_int_numeral)
  ultimately have "x = of_int (k * 2 ^ d) * 2 powi (- 1074)"
    by (simp only: x d of_int_mult mult.assoc mult.commute)
  then show ?thesis
    by blast
qed

lemma rnd_diff_pos:
  assumes "isDouble a" and "isDouble b"
  shows "0 < rnd (a - b) \<longleftrightarrow> b < a"
proof
  assume "0 < rnd (a - b)"
  then show "b < a"
    using rnd_pos_imp [of "a - b"] by simp
next
  assume lt: "b < a"
  from assms obtain m n :: int where
    a: "a = of_int m * 2 powi (- 1074)" and b: "b = of_int n * 2 powi (- 1074)"
    using isDouble_grid by blast
  have "n < m"
    using lt unfolding a b by (simp only: mult_less_cancel_right_pos zero_less_power_int zero_less_numeral of_int_less_iff)
  then have "1 \<le> m - n"
    by simp
  then have "(1 :: real) \<le> of_int (m - n)"
    by (simp only: of_int_1_le_iff)
  then have "1 * 2 powi (- 1074) \<le> of_int (m - n) * (2 :: real) powi (- 1074)"
    by (intro mult_right_mono) simp_all
  then have "2 powi (- 1074) \<le> a - b"
    by (simp add: a b algebra_simps)
  then have "rnd (2 powi (- 1074)) \<le> rnd (a - b)"
    by (rule rnd_mono)
  moreover have "rnd (2 powi (- 1074)) = 2 powi (- 1074)"
    by (intro rnd_double isDouble_powi) simp_all
  moreover have "(0 :: real) < 2 powi (- 1074)"
    by simp
  ultimately show "0 < rnd (a - b)"
    by linarith
qed

lemma rnd_underflow: "\<bar>x\<bar> < 2 powi (- 1075) \<Longrightarrow> rnd x = 0"
proof (cases "x = 0")
  case False
  assume small: "\<bar>x\<bar> < 2 powi (- 1075)"
  have "\<bar>x\<bar> < 2 powi (- 1022 + 1)"
    using small by (rule less_le_trans) (intro power_int_increasing, simp_all)
  then have "expo x \<le> - 1022"
    using False by (intro expo_le) simp_all
  then have e: "expo x = - 1022"
    using expo_ge [of x] by simp
  have u: "ulp x = 2 powi (- 1074)"
    by (simp add: ulp_def e)
  have h: "(2 :: real) powi (- 1075) = (1 / 2) * 2 powi (- 1074)"
    by (simp add: power_int_minus field_simps)
  define t where "t = x / ulp x"
  have "\<bar>x\<bar> / 2 powi (- 1074) < 1 / 2"
    using small unfolding h by (simp only: pos_divide_less_eq zero_less_power_int zero_less_numeral)
  then have q: "\<bar>t\<bar> < 1 / 2"
    by (simp add: t_def u abs_divide)
  have "roundEven t = 0"
  proof (cases "0 \<le> t")
    case True
    with q have "\<lfloor>t\<rfloor> = 0"
      by (intro floor_unique) simp_all
    with q True show ?thesis
      by (simp add: roundEven_def)
  next
    case False
    with q have "\<lfloor>- t\<rfloor> = 0"
      by (intro floor_unique) simp_all
    with q False have "roundEven (- t) = 0"
      by (simp add: roundEven_def)
    then show ?thesis
      by (simp add: roundEven_minus)
  qed
  then show ?thesis
    by (simp add: rnd_def t_def)
qed simp

lemma huge_pos [simp]: "0 < huge"
  by (simp add: huge_def)

lemma huge_simps [simp]: "\<not> huge \<le> 0" "\<not> 0 \<le> - huge" "\<not> huge \<le> - huge"
  using huge_pos by linarith+

lemma abs_less_huge: "\<bar>r\<bar> < huge \<Longrightarrow> \<not> huge \<le> r \<and> \<not> r \<le> - huge"
  by linarith

lemma rnd_neg_iff:
  assumes "rnd v \<noteq> 0"
  shows "rnd v < 0 \<longleftrightarrow> v < 0"
proof
  assume "rnd v < 0"
  then show "v < 0" by (rule rnd_neg_imp)
next
  assume "v < 0"
  then have "rnd v \<le> 0" by (intro rnd_nonpos) simp
  with assms show "rnd v < 0" by simp
qed

lemma rnd_pos_iff:
  assumes "rnd v \<noteq> 0"
  shows "0 < rnd v \<longleftrightarrow> 0 < v"
proof
  assume "0 < rnd v"
  then show "0 < v" by (rule rnd_pos_imp)
next
  assume "0 < v"
  then have "0 \<le> rnd v" by (intro rnd_nonneg) simp
  with assms show "0 < rnd v" by simp
qed

lemma expo_eq:
  assumes lo: "2 powi e \<le> \<bar>x\<bar>" and hi: "\<bar>x\<bar> < 2 powi (e + 1)" and e: "- 1022 \<le> e"
  shows "expo x = e"
proof -
  have "(0 :: real) < 2 powi e"
    by simp
  with lo have "0 < \<bar>x\<bar>"
    by linarith
  then have x: "x \<noteq> 0"
    by simp
  have "expo x \<le> e"
    using x hi e by (rule expo_le)
  moreover have "e \<le> expo x"
  proof (rule ccontr)
    assume "\<not> e \<le> expo x"
    then have "expo x + 1 \<le> e"
      by simp
    then have "(2 :: real) powi (expo x + 1) \<le> 2 powi e"
      by (intro power_int_increasing) simp_all
    with abs_less_expo [OF x] lo show False
      by linarith
  qed
  ultimately show ?thesis
    by simp
qed

lemma rnd_eval:
  assumes "2 powi e \<le> \<bar>x\<bar>" and "\<bar>x\<bar> < 2 powi (e + 1)" and "- 1022 \<le> e"
  shows "rnd x = of_int (roundEven (x / 2 powi (e - 52))) * 2 powi (e - 52)"
proof -
  have "(0 :: real) < 2 powi e"
    by simp
  with assms(1) have "0 < \<bar>x\<bar>"
    by linarith
  then have "x \<noteq> 0"
    by simp
  then show ?thesis
    by (simp add: rnd_def ulp_def expo_eq [OF assms])
qed

text \<open>The whole number after \<open>2^53\<close> lies half way between two doubles.\<close>

lemma rnd_tie: "rnd 9007199254740993 = 9007199254740992"
proof -
  have "rnd 9007199254740993 =
      of_int (roundEven (9007199254740993 / 2 powi (53 - 52))) * 2 powi (53 - 52)"
    by (rule rnd_eval) simp_all
  also have "roundEven (9007199254740993 / 2 powi (53 - 52)) = 4503599627370496"
    by (simp add: roundEven_def)
  finally show ?thesis
    by simp
qed

section \<open>Properties of the numbers\<close>

lemma val_Dbl [simp]: "isDouble r \<Longrightarrow> val (Dbl r) = r"
  by (simp add: Dbl_inverse)

lemma isDouble_val [simp]: "isDouble (val a)"
  using val [of a] by simp

lemma Dbl_val [simp]: "Dbl (val a) = a"
  by (rule val_inverse)

lemma Dbl_eq_iff: "isDouble a \<Longrightarrow> isDouble b \<Longrightarrow> Dbl a = Dbl b \<longleftrightarrow> a = b"
  by (simp add: Dbl_inject)

lemma val_eq_iff: "val a = val b \<longleftrightarrow> a = b"
  by (rule val_inject)

lemma val_bound: "\<bar>val a\<bar> < huge"
  by (rule isDouble_bound) simp

lemma isDouble_of_int: "\<bar>k\<bar> \<le> 2 ^ 53 \<Longrightarrow> isDouble (of_int k)"
proof -
  assume k: "\<bar>k\<bar> \<le> 2 ^ 53"
  show ?thesis
  proof (cases "\<bar>k\<bar> < 2 ^ 53")
    case True
    then have "\<bar>k\<bar> < 2 ^ 53 \<and> - 1074 \<le> (0 :: int) \<and> (0 :: int) \<le> 971 \<and>
        (of_int k :: real) = of_int k * 2 powi 0"
      by simp
    then show ?thesis
      unfolding isDouble_def by blast
  next
    case False
    with k have "k = 2 ^ 53 \<or> k = - (2 ^ 53)"
      by linarith
    moreover have "isDouble (2 powi 53)"
      by (rule isDouble_powi) simp_all
    then have "isDouble (2 ^ 53)"
      by simp
    ultimately show ?thesis
      by auto
  qed
qed

lemma isDouble_numeral [simp]: "numeral n \<le> (9007199254740992 :: int) \<Longrightarrow> isDouble (numeral n)"
  using isDouble_of_int [of "numeral n"] by simp

lemma isDouble_1 [simp]: "isDouble 1"
  using isDouble_of_int [of 1] by simp

lemma isDouble_shift:
  "\<bar>k\<bar> < 2 ^ 53 \<Longrightarrow> - 1074 \<le> j \<Longrightarrow> j \<le> 971 \<Longrightarrow> isDouble (of_int k * 2 powi j)"
  unfolding isDouble_def by blast

lemma isDouble_half [simp]: "numeral n < (9007199254740992 :: int) \<Longrightarrow> isDouble (numeral n / 2)"
  using isDouble_shift [of "numeral n" "- 1"] by (simp add: power_int_minus field_simps)

lemma isDouble_quarter [simp]:
  "numeral n < (9007199254740992 :: int) \<Longrightarrow> isDouble (numeral n / 4)"
  using isDouble_shift [of "numeral n" "- 2"] by (simp add: power_int_minus field_simps)

lemma isDouble_one_half [simp]: "isDouble (1 / 2)"
  using isDouble_shift [of 1 "- 1"] by (simp add: power_int_minus field_simps)

lemma isDouble_one_quarter [simp]: "isDouble (1 / 4)"
  using isDouble_shift [of 1 "- 2"] by (simp add: power_int_minus field_simps)

lemma toNumber_not_NaN [simp]: "toNumber neg v \<noteq> NaN" "NaN \<noteq> toNumber neg v"
  by (simp_all add: toNumber_def Let_def signedZero_def)

lemma toNumber_double:
  "isDouble r \<Longrightarrow> toNumber neg r = (if r = 0 then signedZero neg else Fin (Dbl r))"
  using abs_less_huge [OF isDouble_bound [of r]] by (simp add: toNumber_def rnd_double)

lemma toNumber_cases:
  obtains (pinf) "huge \<le> rnd v" "toNumber neg v = PInf"
  | (ninf) "rnd v \<le> - huge" "toNumber neg v = NInf"
  | (zero) "rnd v = 0" "toNumber neg v = signedZero neg"
  | (fin) "rnd v \<noteq> 0" "\<bar>rnd v\<bar> < huge" "isDouble (rnd v)" "toNumber neg v = Fin (Dbl (rnd v))"
proof -
  consider "huge \<le> rnd v" | "rnd v \<le> - huge" | "rnd v = 0"
    | "rnd v \<noteq> 0" "\<bar>rnd v\<bar> < huge"
    by linarith
  then show thesis
  proof cases
    case 1
    then show ?thesis by (intro pinf) (simp_all add: toNumber_def)
  next
    case 2
    moreover from 2 have "\<not> huge \<le> rnd v"
      using huge_pos by linarith
    ultimately show ?thesis by (intro ninf) (simp_all add: toNumber_def)
  next
    case 3
    then show ?thesis by (intro zero) (simp_all add: toNumber_def)
  next
    case 4
    with abs_less_huge [OF 4(2)] show ?thesis
      by (intro fin) (simp_all add: toNumber_def isDouble_rnd)
  qed
qed

lemma D_double: "isDouble r \<Longrightarrow> D r = Fin (Dbl r)"
  by (simp add: D_def toNumber_double signedZero_def)

lemma D_not_NaN [simp]: "D r \<noteq> NaN" "NaN \<noteq> D r"
  by (simp_all add: D_def)

lemma D_inject: "isDouble a \<Longrightarrow> isDouble b \<Longrightarrow> D a = D b \<longleftrightarrow> a = b"
  by (simp add: D_double Dbl_eq_iff)

lemma D_distinct [simp]:
  "isDouble a \<Longrightarrow> D a \<noteq> MZero" "isDouble a \<Longrightarrow> D a \<noteq> PInf" "isDouble a \<Longrightarrow> D a \<noteq> NInf"
  "isDouble a \<Longrightarrow> MZero \<noteq> D a" "isDouble a \<Longrightarrow> PInf \<noteq> D a" "isDouble a \<Longrightarrow> NInf \<noteq> D a"
  by (simp_all add: D_double)

lemma nval_D [simp]: "isDouble a \<Longrightarrow> nval (D a) = a"
  by (simp add: D_double)

lemma negative_D [simp]: "isDouble a \<Longrightarrow> negative (D a) \<longleftrightarrow> a < 0"
  by (simp add: D_double)

lemma isZero_D [simp]: "isDouble a \<Longrightarrow> isZero (D a) \<longleftrightarrow> a = 0"
  by (simp add: D_double)

lemma isInf_D [simp]: "isDouble a \<Longrightarrow> \<not> isInf (D a)"
  by (simp add: D_double)

lemma isFinite_D [simp]: "isDouble a \<Longrightarrow> isFinite (D a)"
  by (simp add: D_double)

lemma nneg_D: "isDouble a \<Longrightarrow> nneg (D a) = (if a = 0 then MZero else D (- a))"
  by (simp add: D_double)

lemma nadd_D: "isDouble a \<Longrightarrow> isDouble b \<Longrightarrow> isDouble (a + b) \<Longrightarrow> nadd (D a) (D b) = D (a + b)"
  by (auto simp: nadd_def toNumber_double signedZero_def D_double)

lemma nadd_D_MZero: "isDouble a \<Longrightarrow> nadd (D a) MZero = D a"
  by (auto simp: nadd_def toNumber_double signedZero_def D_double)

lemma nadd_MZero_D: "isDouble a \<Longrightarrow> nadd MZero (D a) = D a"
  by (auto simp: nadd_def toNumber_double signedZero_def D_double)

lemma nsub_D: "isDouble a \<Longrightarrow> isDouble b \<Longrightarrow> isDouble (a - b) \<Longrightarrow> nsub (D a) (D b) = D (a - b)"
  by (auto simp: nsub_def nneg_D nadd_D nadd_D_MZero)

lemma nmul_D:
  "isDouble a \<Longrightarrow> isDouble b \<Longrightarrow> isDouble (a * b) \<Longrightarrow>
     nmul (D a) (D b) = (if (a = 0 \<or> b = 0) \<and> (a < 0 \<or> b < 0) then MZero else D (a * b))"
  by (auto simp: nmul_def toNumber_double signedZero_def D_double)

lemma ndiv_D:
  "isDouble a \<Longrightarrow> isDouble b \<Longrightarrow> isDouble (a / b) \<Longrightarrow> b \<noteq> 0 \<Longrightarrow>
     ndiv (D a) (D b) = (if a = 0 \<and> b < 0 then MZero else D (a / b))"
  by (auto simp: ndiv_def toNumber_double signedZero_def D_double)

lemma ndiv_D_zero:
  "isDouble a \<Longrightarrow> ndiv (D a) (D 0) = (if a = 0 then NaN else if a < 0 then NInf else PInf)"
  by (auto simp: ndiv_def signedInf_def)

lemma nsqrt_D: "isDouble a \<Longrightarrow> 0 \<le> a \<Longrightarrow> isDouble (sqrt a) \<Longrightarrow> nsqrt (D a) = D (sqrt a)"
  by (auto simp: nsqrt_def toNumber_double signedZero_def D_double)

lemma nlt_D [simp]: "isDouble a \<Longrightarrow> isDouble b \<Longrightarrow> nlt (D a) (D b) \<longleftrightarrow> a < b"
  by (simp add: D_double)

lemma nle_D [simp]: "isDouble a \<Longrightarrow> isDouble b \<Longrightarrow> nle (D a) (D b) \<longleftrightarrow> a \<le> b"
  by (simp add: D_double)

lemma nlt_D_other [simp]:
  "isDouble a \<Longrightarrow> nlt (D a) PInf" "isDouble a \<Longrightarrow> nlt NInf (D a)"
  "isDouble a \<Longrightarrow> \<not> nlt PInf (D a)" "isDouble a \<Longrightarrow> \<not> nlt (D a) NInf"
  "isDouble a \<Longrightarrow> nlt (D a) MZero \<longleftrightarrow> a < 0" "isDouble a \<Longrightarrow> nlt MZero (D a) \<longleftrightarrow> 0 < a"
  by (simp_all add: D_double)

lemma nle_D_other [simp]:
  "isDouble a \<Longrightarrow> nle (D a) PInf" "isDouble a \<Longrightarrow> nle NInf (D a)"
  "isDouble a \<Longrightarrow> \<not> nle PInf (D a)" "isDouble a \<Longrightarrow> \<not> nle (D a) NInf"
  "isDouble a \<Longrightarrow> nle (D a) MZero \<longleftrightarrow> a \<le> 0" "isDouble a \<Longrightarrow> nle MZero (D a) \<longleftrightarrow> 0 \<le> a"
  by (simp_all add: D_double)

lemma nlt_NaN [simp]: "\<not> nlt a NaN" "\<not> nlt NaN a"
  by (cases a; simp)+

lemma nle_NaN [simp]: "\<not> nle a NaN" "\<not> nle NaN a"
  by (cases a; simp)+

lemma nlt_irrefl: "\<not> nlt a a"
  by (cases a) simp_all

lemma nlt_trans: "nlt a b \<Longrightarrow> nlt b c \<Longrightarrow> nlt a c"
  by (cases a; cases b; cases c) simp_all

lemma nlt_asym: "nlt a b \<Longrightarrow> \<not> nlt b a"
  by (cases a; cases b) simp_all

lemma nlt_total: "nlt a c \<Longrightarrow> nlt b d \<Longrightarrow> \<not> nlt a b \<Longrightarrow> nlt b c"
  by (cases a; cases b; cases c; cases d) simp_all

lemma nlt_PInf: "nlt a b \<Longrightarrow> nlt a PInf"
  by (cases a; cases b) simp_all

lemma nlt_NInf: "nlt a b \<Longrightarrow> nlt NInf b"
  by (cases a; cases b) simp_all

lemma nlt_imp_nle: "nlt a b \<Longrightarrow> nle a b"
  by (cases a; cases b) simp_all

lemma nle_iff_not_nlt: "a \<noteq> NaN \<Longrightarrow> b \<noteq> NaN \<Longrightarrow> nle a b \<longleftrightarrow> \<not> nlt b a"
  by (cases a; cases b) auto

lemma nle_nlt_trans: "nle a b \<Longrightarrow> nlt b c \<Longrightarrow> nlt a c"
  by (cases a; cases b; cases c) simp_all

lemma nlt_nle_trans: "nlt a b \<Longrightarrow> nle b c \<Longrightarrow> nlt a c"
  by (cases a; cases b; cases c) simp_all

lemma nle_trans: "nle a b \<Longrightarrow> nle b c \<Longrightarrow> nle a c"
  by (cases a; cases b; cases c) simp_all

lemma nlt_D_toNumber: "isDouble c \<Longrightarrow> nlt (D c) (toNumber neg v) \<longleftrightarrow> c < rnd v"
proof -
  assume c: "isDouble c"
  note b = isDouble_bound [OF c]
  show ?thesis
  proof (cases neg v rule: toNumber_cases)
    case pinf
    with b c show ?thesis by simp
  next
    case ninf
    with b c show ?thesis by simp
  next
    case zero
    with c show ?thesis by (simp add: signedZero_def D_double)
  next
    case fin
    with c show ?thesis by (simp add: D_double)
  qed
qed

lemma nlt_toNumber_D: "isDouble c \<Longrightarrow> nlt (toNumber neg v) (D c) \<longleftrightarrow> rnd v < c"
proof -
  assume c: "isDouble c"
  note b = isDouble_bound [OF c]
  show ?thesis
  proof (cases neg v rule: toNumber_cases)
    case pinf
    with b c show ?thesis by simp
  next
    case ninf
    with b c show ?thesis by simp
  next
    case zero
    with c show ?thesis by (simp add: signedZero_def D_double)
  next
    case fin
    with c show ?thesis by (simp add: D_double)
  qed
qed

lemma nle_D_toNumber: "isDouble c \<Longrightarrow> nle (D c) (toNumber neg v) \<longleftrightarrow> c \<le> rnd v"
  using nlt_toNumber_D [of c neg v] nle_iff_not_nlt [of "D c" "toNumber neg v"] by auto

lemma nle_toNumber_D: "isDouble c \<Longrightarrow> nle (toNumber neg v) (D c) \<longleftrightarrow> rnd v \<le> c"
  using nlt_D_toNumber [of c neg v] nle_iff_not_nlt [of "toNumber neg v" "D c"] by auto

lemma negative_toNumber:
  "(v \<noteq> 0 \<Longrightarrow> neg \<longleftrightarrow> v < 0) \<Longrightarrow> negative (toNumber neg v) \<longleftrightarrow> (if rnd v = 0 then neg else v < 0)"
proof (cases neg v rule: toNumber_cases)
  case pinf
  then have "0 < rnd v" using huge_pos by linarith
  then have "0 < v" by (rule rnd_pos_imp)
  with pinf \<open>0 < rnd v\<close> show ?thesis by simp
next
  case ninf
  then have "rnd v < 0" using huge_pos by linarith
  then have "v < 0" by (rule rnd_neg_imp)
  with ninf \<open>rnd v < 0\<close> show ?thesis by simp
next
  case zero
  then show ?thesis by (simp add: signedZero_def)
next
  case fin
  have "rnd v < 0 \<longleftrightarrow> v < 0"
    using fin(1) by (rule rnd_neg_iff)
  with fin show ?thesis by simp
qed

text \<open>The sign of a difference decides the order of its operands.\<close>

lemma nval_nneg [simp]: "nval (nneg a) = - nval a"
  by (cases a) simp_all

lemma isInf_nneg [simp]: "isInf (nneg a) \<longleftrightarrow> isInf a"
  by (cases a) simp_all

lemma nneg_NaN [simp]: "nneg a = NaN \<longleftrightarrow> a = NaN"
  by (cases a) simp_all

lemma nlt_zero_nsub: "nlt (D 0) (nsub a b) \<longleftrightarrow> nlt b a"
proof (cases "isFinite a \<and> isFinite b")
  case True
  then have n: "nsub a b = toNumber (negative a \<and> negative (nneg b)) (nval a - nval b)"
    by (cases a; cases b) (simp_all add: nsub_def nadd_def)
  have d: "isDouble (nval a)" "isDouble (nval b)"
    by (cases a; simp; fail) (cases b; simp)
  have "nlt b a \<longleftrightarrow> nval b < nval a"
    using True by (cases a; cases b) simp_all
  then show ?thesis
    unfolding n using rnd_diff_pos [OF d] by (simp add: nlt_D_toNumber)
next
  case False
  then show ?thesis
    by (cases a; cases b) (simp_all add: nsub_def nadd_def)
qed

lemma nlt_nsub_zero: "nlt (nsub a b) (D 0) \<longleftrightarrow> nlt a b"
proof (cases "isFinite a \<and> isFinite b")
  case True
  then have n: "nsub a b = toNumber (negative a \<and> negative (nneg b)) (nval a - nval b)"
    by (cases a; cases b) (simp_all add: nsub_def nadd_def)
  have d: "isDouble (nval a)" "isDouble (nval b)"
    by (cases a; simp; fail) (cases b; simp)
  have "nlt a b \<longleftrightarrow> nval a < nval b"
    using True by (cases a; cases b) simp_all
  moreover have "rnd (nval a - nval b) < 0 \<longleftrightarrow> 0 < rnd (nval b - nval a)"
    using rnd_minus [of "nval a - nval b"] by simp
  ultimately show ?thesis
    unfolding n using rnd_diff_pos [OF d(2) d(1)] by (simp add: nlt_toNumber_D)
next
  case False
  then show ?thesis
    by (cases a; cases b) (simp_all add: nsub_def nadd_def)
qed

lemma nlt_not_nlt_trans: "nlt z a \<Longrightarrow> \<not> nlt b a \<Longrightarrow> b \<noteq> NaN \<Longrightarrow> nlt z b"
  by (cases a; cases b; cases z) simp_all

section \<open>Evaluation of concrete numbers and strings\<close>

lemma toNumber_False: "toNumber False v = D v"
  by (simp add: D_def)

lemmas D_eval =
  nadd_D nsub_D nmul_D ndiv_D nsqrt_D nneg_D nadd_D_MZero nadd_MZero_D ndiv_D_zero D_inject
  toNumber_False
lemma isDouble_of_nat: "real n \<le> 2 ^ 53 \<Longrightarrow> isDouble (real n)"
proof -
  assume "real n \<le> 2 ^ 53"
  then have "real_of_int (int n) \<le> real_of_int (2 ^ 53)"
    by simp
  then have "int n \<le> 2 ^ 53"
    by (simp only: of_int_le_iff)
  then have "\<bar>int n\<bar> \<le> 2 ^ 53"
    by simp
  then have "isDouble (of_int (int n))"
    by (rule isDouble_of_int)
  then show ?thesis
    by simp
qed

lemma numberToString_nat:
  assumes "0 < n" and "real n \<le> 2 ^ 53"
  shows "numberToString R (D (real n)) = natToString n"
proof -
  have d: "isDouble (real n)"
    using assms(2) by (rule isDouble_of_nat)
  have "nval (D (real n)) = real n" "\<not> isZero (D (real n))" "D (real n) \<noteq> PInf" "D (real n) \<noteq> NInf"
    using d assms(1) by simp_all
  moreover have "real n = of_int \<lfloor>real n\<rfloor>" "nat \<lfloor>real n\<rfloor> = n"
    by simp_all
  ultimately show ?thesis
    using assms unfolding numberToString_def by (simp del: of_nat_le_iff)
qed

lemma D_tie: "D 9007199254740993 = D 9007199254740992"
proof -
  have "isDouble 9007199254740992"
    by simp
  then show ?thesis
    using abs_less_huge [OF isDouble_bound [of 9007199254740992]]
    by (simp add: D_def toNumber_def rnd_tie rnd_double)
qed

lemma nadd_tie: "nadd (D 9007199254740992) (D 1) = D 9007199254740992"
proof -
  have "nadd (D 9007199254740992) (D 1) = D (9007199254740992 + 1)"
    by (simp add: nadd_def toNumber_False)
  then show ?thesis
    by (simp add: D_tie)
qed

lemma numberToString_succ:
  assumes "real n < 2 ^ 53"
  shows "numberToString R (nadd (D (real n)) (D 1)) = natToString (n + 1)"
proof -
  from assms have "real_of_int (int n) < real_of_int (2 ^ 53)"
    by simp
  then have "int n < 2 ^ 53"
    by (simp only: of_int_less_iff)
  then have "int (n + 1) \<le> 2 ^ 53"
    by simp
  then have "real_of_int (int (n + 1)) \<le> real_of_int (2 ^ 53)"
    by (simp only: of_int_le_iff)
  then have le: "real (n + 1) \<le> 2 ^ 53"
    by simp
  have "isDouble (real n)" "isDouble (real (n + 1))"
    using assms le by (simp_all add: isDouble_of_nat del: of_nat_add of_nat_Suc)
  then have "nadd (D (real n)) (D 1) = D (real (n + 1))"
    using nadd_D [of "real n" 1] by (simp add: add.commute)
  then show ?thesis
    using numberToString_nat [of "n + 1" R] le by simp
qed

lemma natToString_big: "natToString 9007199254740992 = str ''9007199254740992''"
  by (simp add: natToString.simps digitChar_def str_def)

lemma parse_big:
  "cellNameToCellPosition (str ''a9007199254740992'') =
     Some \<lparr>column = str ''a'', row = D 9007199254740992\<rparr>"
  by (simp add: cellNameToCellPosition_def parseInt_def isColumnChar_def isDigit_def
      digitValue_def str_def toNumber_False)

lemma numberToString_big:
  "numberToString R (D 9007199254740992) = str ''9007199254740992''"
  using numberToString_nat [of 9007199254740992 R] by (simp add: natToString_big)

section \<open>Properties of the path interpreter\<close>

lemma vertical_lineto_falls_through:
  "pathToRects_loop R (VerticalLineto relative cy # path) rects points x y =
   pathToRects_loop R (Closepath # path) rects
     (points @ [\<lparr>vec_x = x, vec_y = (if relative then nadd y cy else cy)\<rparr>])
     x (if relative then nadd y cy else cy)"
  by (simp add: Let_def)

text \<open>
  C1. A vertical-line command is claimed to append the new current point to the point
  list and nothing else, the list being emitted and cleared by a close command only. The
  path \<open>M 0 0 H 2 V 2 H 0 Z\<close> draws the square with the corners \<open>(0,0)\<close> and \<open>(2,2)\<close>,
  so under the claim the close command emits a list of four points. The interpreter
  returns no rectangle: the vertical line closes the shape after three points and clears
  the list, and the close command finds a single point.
\<close>

theorem pathToRects_square_lost:
  "pathToRects R
     [Moveto False (D 0) (D 0), HorizontalLineto False (D 2),
      VerticalLineto False (D 2), HorizontalLineto False (D 0), Closepath] = []"
  by (simp add: pathToRects_def closeShape_def pointsToRect_def)

section \<open>Completing a cell\<close>

lemma maxByKey_loop_mem:
  "maxByKey_loop ts f k b = Some r \<Longrightarrow> b = Some r \<or> r \<in> set ts"
  by (induction ts arbitrary: k b) (auto simp: Let_def split: if_splits)

lemma maxByKey_loop_keep:
  "\<forall>c\<in>set ts. \<not> nlt k (f c) \<Longrightarrow> maxByKey_loop ts f k b = b"
  by (induction ts) (auto simp: Let_def)

lemma maxByKey_loop_below:
  "\<forall>c\<in>set xs. nlt (f c) m \<Longrightarrow> nlt k m \<Longrightarrow>
     \<exists>k' b'. maxByKey_loop (xs @ ys) f k b = maxByKey_loop ys f k' b' \<and> nlt k' m"
proof (induction xs arbitrary: k b)
  case Nil
  then show ?case by auto
next
  case (Cons x xs)
  show ?case
  proof (cases "nlt k (f x)")
    case True
    from Cons.IH [of "f x" "Some x"] Cons.prems
    show ?thesis using True by (simp add: Let_def)
  next
    case False
    from Cons.IH [of k b] Cons.prems
    show ?thesis using False by (simp add: Let_def)
  qed
qed

lemma maxByKey_first_greatest:
  assumes pre: "\<forall>c\<in>set pre. nlt (f c) (f a)"
    and post: "\<forall>c\<in>set post. \<not> nlt (f a) (f c)"
    and fin: "nlt NInf (f a)"
  shows "maxByKey (pre @ a # post) f = Some a"
proof -
  from maxByKey_loop_below [OF pre fin, of "a # post" None]
  obtain k' b' where
    run: "maxByKey_loop (pre @ a # post) f NInf None = maxByKey_loop (a # post) f k' b'"
    and k': "nlt k' (f a)"
    by blast
  from k' have "maxByKey_loop (a # post) f k' b' = maxByKey_loop post f (f a) (Some a)"
    by (simp add: Let_def)
  with run post show ?thesis
    by (simp add: maxByKey_def maxByKey_loop_keep)
qed

lemma handleClick_complete:
  assumes "completes viewScale editor p t r b l"
  shows "handleClick R viewScale keep (Some p) editor =
    editor\<lparr>
      cellCreatedCount := cellCreatedCount editor + 1,
      cells := cells editor @
        [\<lparr>cell_id = cellCreatedCount editor + 1,
          cell_name =
            (case maxByKey (filter (alignedAbove (completedRect t r b l)) (cells editor)) cellBottom of
               None \<Rightarrow> natToString (cellCreatedCount editor + 1)
             | Some ca \<Rightarrow> nextName R (cellCreatedCount editor + 1) ca),
          cell_rect = completedRect t r b l\<rparr>],
      highlightedEdge := None,
      selectedEdges :=
        \<lparr>sel_top = None, sel_right = (if keep then Some r else None), sel_bottom = None,
         sel_left = (if keep then Some l else None)\<rparr>\<rparr>"
proof -
  from assms obtain closest where
    c: "getClosestSelectableEdge viewScale editor p = Some closest"
    and s: "setSlot closest (selectedEdges editor) =
      \<lparr>sel_top = Some t, sel_right = Some r, sel_bottom = Some b, sel_left = Some l\<rparr>"
    by (auto simp: completes_def split: option.splits)
  have al: "alignedAbove \<lparr>rect_x = edge_x r, rect_y = edge_y b,
      rect_width = nsub (edge_x l) (edge_x r), rect_height = nsub (edge_y t) (edge_y b)\<rparr> =
      (\<lambda>c. nlt (nadd (rect_y (cell_rect c)) (rect_height (cell_rect c))) (edge_y b) \<and>
         nle (rect_x (cell_rect c)) (nadd (edge_x r) (ndiv (nsub (edge_x l) (edge_x r)) (D 2))) \<and>
         nle (nadd (edge_x r) (ndiv (nsub (edge_x l) (edge_x r)) (D 2)))
           (nadd (rect_x (cell_rect c)) (rect_width (cell_rect c))))"
    by (rule ext) (simp add: alignedAbove_def completedRect_def cellBottom_def rectCenterX_def)
  have cb: "cellBottom = (\<lambda>c. nadd (rect_y (cell_rect c)) (rect_height (cell_rect c)))"
    by (rule ext) (simp add: cellBottom_def)
  let ?A = "filter (alignedAbove (completedRect t r b l)) (cells editor)"
  show ?thesis
  proof (cases "maxByKey ?A cellBottom")
    case None
    then show ?thesis
      unfolding handleClick_def by (simp add: c s Let_def al cb completedRect_def)
  next
    case (Some ca)
    then show ?thesis
      unfolding handleClick_def
      by (cases "cellNameToCellPosition (cell_name ca)")
        (simp_all add: c s Let_def al cb completedRect_def nextName_def
          cellPositionToCellName_def)
  qed
qed

lemma maxByKey_filter_None:
  "\<forall>c\<in>set cs. \<not> P c \<Longrightarrow> maxByKey (filter P cs) f = None"
  by (simp add: maxByKey_def)

text \<open>
  C2. When a click fills a slot and all four slots are then occupied, exactly one cell is
  appended to the cell list. Its rectangle is
  \<open>(right.x, bottom.y, left.x - right.x, top.y - bottom.y)\<close>, its id is the incremented
  creation counter, and its name is the decimal string of that counter unless a name is
  inferred from an existing cell. If the ids of the cells were at most the counter before,
  the new id is strictly greater than all of them and the ids are at most the counter
  afterwards. Afterwards the highlighted edge and the top and bottom slots are empty; the
  left and right slots are empty exactly when \<open>keepVerticalSelection\<close> is off, and keep
  their edges when it is on.
\<close>

theorem handleClick_cell:
  assumes "completes viewScale editor p t r b l"
  shows "\<exists>name.
    cells (handleClick R viewScale keep (Some p) editor) =
      cells editor @
        [\<lparr>cell_id = cellCreatedCount editor + 1, cell_name = name,
          cell_rect = \<lparr>rect_x = edge_x r, rect_y = edge_y b,
                       rect_width = nsub (edge_x l) (edge_x r),
                       rect_height = nsub (edge_y t) (edge_y b)\<rparr>\<rparr>] \<and>
    (name = natToString (cellCreatedCount editor + 1) \<or>
     (\<exists>c\<in>set (cells editor). \<exists>q. cellNameToCellPosition (cell_name c) = Some q \<and>
        name = column q @ numberToString R (nadd (row q) (D 1)))) \<and>
    cellCreatedCount (handleClick R viewScale keep (Some p) editor) = cellCreatedCount editor + 1 \<and>
    ((\<forall>c\<in>set (cells editor). cell_id c \<le> cellCreatedCount editor) \<longrightarrow>
       (\<forall>c\<in>set (cells editor). cell_id c < cellCreatedCount editor + 1) \<and>
       (\<forall>c\<in>set (cells (handleClick R viewScale keep (Some p) editor)).
          cell_id c \<le> cellCreatedCount (handleClick R viewScale keep (Some p) editor))) \<and>
    highlightedEdge (handleClick R viewScale keep (Some p) editor) = None \<and>
    sel_top (selectedEdges (handleClick R viewScale keep (Some p) editor)) = None \<and>
    sel_bottom (selectedEdges (handleClick R viewScale keep (Some p) editor)) = None \<and>
    (sel_left (selectedEdges (handleClick R viewScale keep (Some p) editor)) = None \<longleftrightarrow> \<not> keep) \<and>
    (sel_right (selectedEdges (handleClick R viewScale keep (Some p) editor)) = None \<longleftrightarrow> \<not> keep) \<and>
    (keep \<longrightarrow>
       sel_left (selectedEdges (handleClick R viewScale keep (Some p) editor)) = Some l \<and>
       sel_right (selectedEdges (handleClick R viewScale keep (Some p) editor)) = Some r)"
proof -
  let ?M = "maxByKey (filter (alignedAbove (completedRect t r b l)) (cells editor)) cellBottom"
  let ?n = "cellCreatedCount editor + 1"
  let ?name = "case ?M of None \<Rightarrow> natToString ?n | Some ca \<Rightarrow> nextName R ?n ca"
  have name: "?name = natToString ?n \<or>
     (\<exists>c\<in>set (cells editor). \<exists>q. cellNameToCellPosition (cell_name c) = Some q \<and>
        ?name = column q @ numberToString R (nadd (row q) (D 1)))"
  proof (cases ?M)
    case None
    then show ?thesis by simp
  next
    case (Some ca)
    then have "maxByKey_loop (filter (alignedAbove (completedRect t r b l)) (cells editor))
        cellBottom NInf None = Some ca"
      by (simp add: maxByKey_def)
    then have "ca \<in> set (cells editor)"
      using maxByKey_loop_mem by fastforce
    then show ?thesis
      using Some by (cases "cellNameToCellPosition (cell_name ca)") (auto simp: nextName_def)
  qed
  show ?thesis
    apply (rule exI [of _ ?name])
    apply (simp only: handleClick_complete [OF assms])
    using name
    apply (auto simp: completedRect_def)
    done
qed

lemma parse_a1: "cellNameToCellPosition (str ''a1'') = Some \<lparr>column = str ''a'', row = D 1\<rparr>"
  by (simp add: cellNameToCellPosition_def parseInt_def isColumnChar_def isDigit_def
      digitValue_def str_def toNumber_False)

lemma completes_editorA: "completes (D 1) editorA clickA edgeT edgeR edgeB edgeL"
  by (simp add: completes_def getClosestSelectableEdge_def editorA_def clickA_def edgeT_def
      slot_def setSlot_def minByKey_def Let_def
      pointSegmentDistance_def segmentClosestPoint_def
      edgeToSegment_def vectorNormalize_def vectorMagnitude_def vectorSub_def vectorDot_def
      vectorScale_def vectorAdd_def vectorDistance_def segmentLength_def clamp_def D_eval)

lemma handleClick_editorA:
  "handleClick R (D 1) keep (Some clickA) editorA =
     editorA\<lparr>cellCreatedCount := 2,
       cells := [cellA1,
         \<lparr>cell_id = 2, cell_name = str ''a2'',
          cell_rect = \<lparr>rect_x = D 0, rect_y = D 0, rect_width = D 10, rect_height = D 10\<rparr>\<rparr>],
       highlightedEdge := None,
       selectedEdges :=
         \<lparr>sel_top = None, sel_right = (if keep then Some edgeR else None), sel_bottom = None,
          sel_left = (if keep then Some edgeL else None)\<rparr>\<rparr>"
proof -
  have al: "alignedAbove (completedRect edgeT edgeR edgeB edgeL) cellA1"
    by (simp add: alignedAbove_def completedRect_def cellBottom_def rectCenterX_def cellA1_def
        edgeT_def edgeR_def edgeB_def edgeL_def D_eval)
  have m: "maxByKey [cellA1] cellBottom = Some cellA1"
    by (simp add: maxByKey_def cellBottom_def cellA1_def D_eval)
  have p: "cellNameToCellPosition (cell_name cellA1) = Some \<lparr>column = str ''a'', row = D 1\<rparr>"
    by (simp add: cellA1_def parse_a1)
  have n: "numberToString R (D 2) = str ''2''"
    using numberToString_nat [of 2 R] by (simp add: natToString.simps [of 2] digitChar_def str_def)
  have r: "completedRect edgeT edgeR edgeB edgeL =
      \<lparr>rect_x = D 0, rect_y = D 0, rect_width = D 10, rect_height = D 10\<rparr>"
    by (simp add: completedRect_def edgeT_def edgeR_def edgeB_def edgeL_def D_eval)
  have c: "cells editorA = [cellA1]" "cellCreatedCount editorA = 1"
    by (simp_all add: editorA_def)
  show ?thesis
    unfolding handleClick_complete [OF completes_editorA]
    by (simp add: c al m nextName_def p n D_eval) (simp add: r str_def)
qed

theorem handleClick_cell_witness:
  "completes (D 1) editorA clickA edgeT edgeR edgeB edgeL \<and>
   list_all (\<lambda>c. cell_id c \<le> cellCreatedCount editorA) (cells editorA) \<and>
   map cell_id (cells (handleClick exampleRuntime (D 1) True (Some clickA) editorA)) = [1, 2] \<and>
   map cell_rect (cells (handleClick exampleRuntime (D 1) True (Some clickA) editorA)) =
     [cell_rect cellA1,
      \<lparr>rect_x = D 0, rect_y = D 0, rect_width = D 10, rect_height = D 10\<rparr>] \<and>
   list_all (\<lambda>c. cell_id c \<le> 2) (cells (handleClick exampleRuntime (D 1) True (Some clickA) editorA)) \<and>
   highlightedEdge (handleClick exampleRuntime (D 1) True (Some clickA) editorA) = None \<and>
   selectedEdges (handleClick exampleRuntime (D 1) True (Some clickA) editorA) =
     \<lparr>sel_top = None, sel_right = Some edgeR, sel_bottom = None, sel_left = Some edgeL\<rparr>"
proof -
  have inv: "\<forall>c\<in>set (cells editorA). cell_id c \<le> cellCreatedCount editorA"
    by (simp add: editorA_def cellA1_def)
  have id: "cell_id cellA1 = 1"
    by (simp add: cellA1_def)
  from handleClick_cell [OF completes_editorA, of exampleRuntime True] inv completes_editorA
  show ?thesis
    by (simp add: handleClick_editorA id list_all_iff)
qed

text \<open>
  C7. The claim: the new cell takes the column of the nearest aligned cell above it and
  that cell's row incremented by one. Below a cell named \<open>a9007199254740992\<close> the new
  cell gets the same name \<open>a9007199254740992\<close>: the row is \<open>2^53\<close> and the sum
  \<open>2^53 + 1\<close> is rounded to \<open>2^53\<close>. And below an aligned cell named \<open>a1\<close> whose bottom
  is \<open>-Infinity\<close> the new cell keeps its default name \<open>2\<close>: \<open>maxByKey\<close> starts from
  \<open>-Infinity\<close> and never chooses such a cell.
\<close>

theorem handleClick_label_not_next:
  "alignedAbove (completedRect edgeT edgeR edgeB edgeL) cellBig \<and>
   cell_name cellBig = str ''a9007199254740992'' \<and>
   cell_name (last (cells (handleClick exampleRuntime (D 1) False (Some clickA) editorBig))) =
     str ''a9007199254740992'' \<and>
   alignedAbove (completedRect edgeT edgeR edgeB edgeL) cellLow \<and>
   cellNameToCellPosition (cell_name cellLow) = Some \<lparr>column = str ''a'', row = D 1\<rparr> \<and>
   cell_name (last (cells (handleClick exampleRuntime (D 1) False (Some clickA) editorLow))) =
     str ''2''"
proof -
  have r: "completedRect edgeT edgeR edgeB edgeL =
      \<lparr>rect_x = D 0, rect_y = D 0, rect_width = D 10, rect_height = D 10\<rparr>"
    by (simp add: completedRect_def edgeT_def edgeR_def edgeB_def edgeL_def D_eval)
  have "getClosestSelectableEdge (D 1) editorBig clickA =
      getClosestSelectableEdge (D 1) editorA clickA"
    "selectedEdges editorBig = selectedEdges editorA"
    by (simp_all add: getClosestSelectableEdge_def editorBig_def)
  then have cb: "completes (D 1) editorBig clickA edgeT edgeR edgeB edgeL"
    using completes_editorA by (simp only: completes_def)
  have "getClosestSelectableEdge (D 1) editorLow clickA =
      getClosestSelectableEdge (D 1) editorA clickA"
    "selectedEdges editorLow = selectedEdges editorA"
    by (simp_all add: getClosestSelectableEdge_def editorLow_def)
  then have cl: "completes (D 1) editorLow clickA edgeT edgeR edgeB edgeL"
    using completes_editorA by (simp only: completes_def)
  have ab: "alignedAbove (completedRect edgeT edgeR edgeB edgeL) cellBig"
    unfolding r by (simp add: alignedAbove_def cellBottom_def rectCenterX_def cellBig_def D_eval)
  have al: "alignedAbove (completedRect edgeT edgeR edgeB edgeL) cellLow"
    unfolding r
    by (simp add: alignedAbove_def cellBottom_def rectCenterX_def cellLow_def D_eval nadd_def)
  have mb: "maxByKey [cellBig] cellBottom = Some cellBig"
    by (simp add: maxByKey_def cellBottom_def cellBig_def D_eval)
  have ml: "maxByKey [cellLow] cellBottom = None"
    by (simp add: maxByKey_def cellBottom_def cellLow_def nadd_def)
  have two: "natToString (Suc (Suc 0)) = str ''2''"
    using natToString.simps [of 2] by (simp add: digitChar_def str_def numeral_2_eq_2)
  have cs: "cells editorBig = [cellBig]" "cellCreatedCount editorBig = 1"
    "cells editorLow = [cellLow]" "cellCreatedCount editorLow = 1"
    by (simp_all add: editorBig_def editorLow_def editorA_def)
  have nm: "cell_name cellBig = str ''a9007199254740992''"
    by (simp add: cellBig_def)
  have nx: "nextName exampleRuntime n cellBig = str ''a9007199254740992''" for n
    by (simp add: nextName_def nm parse_big nadd_tie numberToString_big) (simp add: str_def)
  have 1: "cell_name (last (cells (handleClick exampleRuntime (D 1) False (Some clickA) editorBig))) =
      str ''a9007199254740992''"
    unfolding handleClick_complete [OF cb] by (simp add: cs ab mb nx)
  have 2: "cell_name (last (cells (handleClick exampleRuntime (D 1) False (Some clickA) editorLow))) =
      str ''2''"
    unfolding handleClick_complete [OF cl] by (simp add: cs al ml two)
  have "cellNameToCellPosition (cell_name cellLow) = Some \<lparr>column = str ''a'', row = D 1\<rparr>"
    by (simp add: cellLow_def parse_a1)
  with ab al 1 2 nm show ?thesis
    by simp
qed

text \<open>
  C7, as the code has it. If every existing cell that is aligned above the new rectangle
  has the bottom \<open>-Infinity\<close>, in particular if no cell is aligned above it, the cell
  keeps its default name, the decimal string of the counter. Otherwise take the aligned
  cell with the greatest bottom, the first one in the list among equals, its bottom not
  being \<open>-Infinity\<close>: if its name does not parse, the new cell keeps the default name; if
  it parses, the new name is its column followed by its row plus one, computed and
  printed as a number. For a row below \<open>2^53\<close> these are the decimal digits of the next
  whole number.
\<close>

theorem handleClick_label:
  assumes "completes viewScale editor p t r b l"
  shows
    "((\<forall>c\<in>set (cells editor). alignedAbove (completedRect t r b l) c \<longrightarrow> cellBottom c = NInf) \<longrightarrow>
        cell_name (last (cells (handleClick R viewScale keep (Some p) editor))) =
          natToString (cellCreatedCount editor + 1)) \<and>
     (\<forall>pre ca post.
        cells editor = pre @ ca # post \<and>
        alignedAbove (completedRect t r b l) ca \<and> cellBottom ca \<noteq> NInf \<and>
        (\<forall>c\<in>set pre. alignedAbove (completedRect t r b l) c \<longrightarrow>
           nlt (cellBottom c) (cellBottom ca)) \<and>
        (\<forall>c\<in>set post. alignedAbove (completedRect t r b l) c \<longrightarrow>
           \<not> nlt (cellBottom ca) (cellBottom c)) \<longrightarrow>
        cell_name (last (cells (handleClick R viewScale keep (Some p) editor))) =
          (case cellNameToCellPosition (cell_name ca) of
             None \<Rightarrow> natToString (cellCreatedCount editor + 1)
           | Some q \<Rightarrow> column q @ numberToString R (nadd (row q) (D 1)))) \<and>
     (\<forall>n. real n < 2 ^ 53 \<longrightarrow>
        numberToString R (nadd (D (real n)) (D 1)) = natToString (n + 1))"
proof -
  let ?R = "completedRect t r b l"
  let ?new = "last (cells (handleClick R viewScale keep (Some p) editor))"
  let ?n = "cellCreatedCount editor + 1"
  have new: "cell_name ?new =
      (case maxByKey (filter (alignedAbove ?R) (cells editor)) cellBottom of
         None \<Rightarrow> natToString ?n
       | Some ca \<Rightarrow> nextName R ?n ca)"
    by (simp add: handleClick_complete [OF assms])
  have none: "cell_name ?new = natToString ?n"
    if "\<forall>c\<in>set (cells editor). alignedAbove ?R c \<longrightarrow> cellBottom c = NInf"
  proof -
    from that have "\<forall>c\<in>set (filter (alignedAbove ?R) (cells editor)). \<not> nlt NInf (cellBottom c)"
      by simp
    then have "maxByKey (filter (alignedAbove ?R) (cells editor)) cellBottom = None"
      unfolding maxByKey_def by (rule maxByKey_loop_keep)
    with new show ?thesis by simp
  qed
  have some: "cell_name ?new = nextName R ?n ca"
    if dec: "cells editor = pre @ ca # post"
      and al: "alignedAbove ?R ca"
      and fin: "cellBottom ca \<noteq> NInf"
      and pre: "\<forall>c\<in>set pre. alignedAbove ?R c \<longrightarrow> nlt (cellBottom c) (cellBottom ca)"
      and post: "\<forall>c\<in>set post. alignedAbove ?R c \<longrightarrow> \<not> nlt (cellBottom ca) (cellBottom c)"
    for pre ca post
  proof -
    have f: "filter (alignedAbove ?R) (cells editor) =
        filter (alignedAbove ?R) pre @ ca # filter (alignedAbove ?R) post"
      using dec al by simp
    from al have "nlt (cellBottom ca) (rect_y ?R)"
      by (simp add: alignedAbove_def)
    with fin have "nlt NInf (cellBottom ca)"
      by (cases "cellBottom ca") auto
    with pre post have "maxByKey (filter (alignedAbove ?R) (cells editor)) cellBottom = Some ca"
      unfolding f by (intro maxByKey_first_greatest) auto
    with new show ?thesis by simp
  qed
  show ?thesis
  proof (intro conjI allI impI)
    assume "\<forall>c\<in>set (cells editor). alignedAbove ?R c \<longrightarrow> cellBottom c = NInf"
    then show "cell_name ?new = natToString ?n"
      by (rule none)
  next
    fix pre ca post
    assume "cells editor = pre @ ca # post \<and>
        alignedAbove ?R ca \<and> cellBottom ca \<noteq> NInf \<and>
        (\<forall>c\<in>set pre. alignedAbove ?R c \<longrightarrow> nlt (cellBottom c) (cellBottom ca)) \<and>
        (\<forall>c\<in>set post. alignedAbove ?R c \<longrightarrow> \<not> nlt (cellBottom ca) (cellBottom c))"
    then have "cell_name ?new = nextName R ?n ca"
      using some [of pre ca post] by blast
    then show "cell_name ?new =
        (case cellNameToCellPosition (cell_name ca) of
           None \<Rightarrow> natToString ?n
         | Some q \<Rightarrow> column q @ numberToString R (nadd (row q) (D 1)))"
      by (simp only: nextName_def)
  next
    fix n :: nat
    assume "real n < 2 ^ 53"
    then show "numberToString R (nadd (D (real n)) (D 1)) = natToString (n + 1)"
      by (rule numberToString_succ)
  qed
qed

theorem handleClick_label_witness:
  "completes (D 1) editorA clickA edgeT edgeR edgeB edgeL \<and>
   cells editorA = [] @ cellA1 # [] \<and>
   alignedAbove (completedRect edgeT edgeR edgeB edgeL) cellA1 \<and>
   cellBottom cellA1 \<noteq> NInf \<and>
   cellNameToCellPosition (cell_name cellA1) = Some \<lparr>column = str ''a'', row = D (real 1)\<rparr> \<and>
   real 1 < 2 ^ 53 \<and>
   cell_name (last (cells (handleClick exampleRuntime (D 1) False (Some clickA) editorA))) =
     str ''a'' @ natToString (1 + 1) \<and>
   natToString (1 + 1) = str ''2''"
proof -
  have al: "alignedAbove (completedRect edgeT edgeR edgeB edgeL) cellA1"
    by (simp add: alignedAbove_def completedRect_def cellBottom_def rectCenterX_def cellA1_def
        edgeT_def edgeR_def edgeB_def edgeL_def D_eval)
  have fin: "cellBottom cellA1 \<noteq> NInf"
    by (simp add: cellBottom_def cellA1_def D_eval)
  have dec: "cells editorA = [] @ cellA1 # []"
    by (simp add: editorA_def)
  have p: "cellNameToCellPosition (cell_name cellA1) = Some \<lparr>column = str ''a'', row = D 1\<rparr>"
    by (simp add: cellA1_def parse_a1)
  have two: "natToString (Suc (Suc 0)) = str ''2''"
    using natToString.simps [of 2] by (simp add: digitChar_def str_def numeral_2_eq_2)
  note L = handleClick_label [OF completes_editorA, of exampleRuntime False]
  have "real 1 < 2 ^ 53"
    by simp
  then have s: "numberToString exampleRuntime (nadd (D (real 1)) (D 1)) = natToString (1 + 1)"
    by (rule L [THEN conjunct2, THEN conjunct2, rule_format])
  have "cell_name (last (cells (handleClick exampleRuntime (D 1) False (Some clickA) editorA))) =
      (case cellNameToCellPosition (cell_name cellA1) of
         None \<Rightarrow> natToString (cellCreatedCount editorA + 1)
       | Some q \<Rightarrow> column q @ numberToString exampleRuntime (nadd (row q) (D 1)))"
    using al fin dec by (intro L [THEN conjunct2, THEN conjunct1, rule_format, of "[]" cellA1 "[]"]) simp
  then show ?thesis
    using completes_editorA al fin dec s by (simp add: p two)
qed

section \<open>The edge classifier\<close>




section \<open>Cell names\<close>

lemma decimalValue_snoc: "decimalValue (ds @ [d]) = 10 * decimalValue ds + digitValue d"
proof -
  have "(\<Sum>i<length ds. digitValue ((ds @ [d]) ! i) * 10 ^ (length ds - i)) =
        (\<Sum>i<length ds. 10 * (digitValue (ds ! i) * 10 ^ (length ds - 1 - i)))"
    by (rule sum.cong) (auto simp: nth_append Suc_diff_Suc simp flip: power_Suc)
  then show ?thesis
    by (simp add: decimalValue_def sum_distrib_left)
qed

lemma foldl_decimalValue:
  "foldl (\<lambda>a c. 10 * a + digitValue c) 0 ds = decimalValue ds"
proof (induction ds rule: rev_induct)
  case Nil
  show ?case by (simp add: decimalValue_def)
next
  case (snoc d ds)
  then show ?case by (simp add: decimalValue_snoc)
qed

lemma takeWhile_all: "list_all P xs \<Longrightarrow> takeWhile P xs = xs"
  by (induction xs) auto

lemma parseInt_digits:
  "ds \<noteq> [] \<Longrightarrow> list_all isDigit ds \<Longrightarrow> parseInt ds = nearestNumber (decimalValue ds)"
  by (simp add: parseInt_def takeWhile_all foldl_decimalValue nearestNumber_def)

lemma nearestNumber_exact: "real n \<le> 2 ^ 53 \<Longrightarrow> nearestNumber n = D (real n)"
  by (simp add: nearestNumber_def toNumber_False)

lemma nearestNumber_nonneg: "nearestNumber n \<noteq> NaN \<and> nle (D 0) (nearestNumber n)"
  by (simp add: nearestNumber_def nle_D_toNumber rnd_nonneg)

text \<open>
  C3. The claim: \<open>cellNameToCellPosition\<close> succeeds exactly on a letter from \<open>a\<close> to
  \<open>h\<close> followed by the decimal representation of a positive integer, and the row of a
  result is at least 1. The name \<open>a0\<close> is accepted, with the row 0.
\<close>

theorem cellNameToCellPosition_a0:
  "cellNameToCellPosition (str ''a0'') = Some \<lparr>column = str ''a'', row = D 0\<rparr> \<and>
   \<not> nle (D 1) (D 0)"
  by (simp add: cellNameToCellPosition_def parseInt_def isColumnChar_def isDigit_def
      digitValue_def str_def toNumber_False)

text \<open>
  C3, as the code has it: \<open>cellNameToCellPosition\<close> succeeds exactly when the name is one
  letter from \<open>a\<close> to \<open>h\<close> followed by one or more decimal digits; the column of the
  result is that letter and the row is the number nearest to the whole number that the
  digits denote. That is this whole number itself up to \<open>2^53\<close>; it may be zero and may be
  written with leading zeros. The row is never NaN and never negative.
\<close>

theorem cellNameToCellPosition_iff:
  "(cellNameToCellPosition name = Some p \<longleftrightarrow>
     (\<exists>c ds. name = c # ds \<and> isColumnChar c \<and> ds \<noteq> [] \<and> (\<forall>d\<in>set ds. isDigit d) \<and>
             p = \<lparr>column = [c], row = nearestNumber (decimalValue ds)\<rparr>)) \<and>
   (real n \<le> 2 ^ 53 \<longrightarrow> nearestNumber n = D (real n) \<and> nval (nearestNumber n) = real n) \<and>
   nearestNumber n \<noteq> NaN \<and> nle (D 0) (nearestNumber n)"
proof -
  have 1: "cellNameToCellPosition name = Some p \<longleftrightarrow>
     (\<exists>c ds. name = c # ds \<and> isColumnChar c \<and> ds \<noteq> [] \<and> (\<forall>d\<in>set ds. isDigit d) \<and>
             p = \<lparr>column = [c], row = nearestNumber (decimalValue ds)\<rparr>)"
  proof (cases name)
    case Nil
    then show ?thesis by (simp add: cellNameToCellPosition_def)
  next
    case (Cons c ds)
    show ?thesis
    proof (cases "isColumnChar c \<and> ds \<noteq> [] \<and> list_all isDigit ds")
      case True
      then have "parseInt ds \<noteq> NaN"
        using nearestNumber_nonneg [of "decimalValue ds"] by (simp add: parseInt_digits)
      with True show ?thesis
        using Cons by (auto simp: cellNameToCellPosition_def parseInt_digits list_all_iff)
    next
      case False
      then show ?thesis
        using Cons by (auto simp: cellNameToCellPosition_def list_all_iff)
    qed
  qed
  have 2: "real n \<le> 2 ^ 53 \<longrightarrow> nearestNumber n = D (real n) \<and> nval (nearestNumber n) = real n"
    using isDouble_of_nat [of n] by (simp add: nearestNumber_exact del: of_nat_le_iff)
  from 1 2 nearestNumber_nonneg [of n] show ?thesis
    by blast
qed

lemma digitValue_digits:
  "digitValue 48 = 0" "digitValue 49 = 1" "digitValue 50 = 2" "digitValue 51 = 3"
  "digitValue 52 = 4" "digitValue 53 = 5" "digitValue 54 = 6" "digitValue 55 = 7"
  "digitValue 56 = 8" "digitValue 57 = 9"
  by (simp_all add: digitValue_def)

lemma decimalValue_12: "decimalValue [49, 50] = 12"
  using foldl_decimalValue [of "[49, 50]"] by (simp add: digitValue_digits)

lemma nearestNumber_tie: "nearestNumber 9007199254740993 = D 9007199254740992"
proof -
  have "rnd (real 9007199254740993) = 9007199254740992"
    using rnd_tie by simp
  moreover have "isDouble 9007199254740992"
    by simp
  ultimately show ?thesis
    using abs_less_huge [OF isDouble_bound [of 9007199254740992]]
    by (simp add: nearestNumber_def toNumber_def D_double del: of_nat_numeral)
qed

theorem cellNameToCellPosition_iff_witness:
  "cellNameToCellPosition (str ''b12'') = Some \<lparr>column = str ''b'', row = D 12\<rparr> \<and>
   nval (D 12) = 12 \<and>
   nearestNumber 9007199254740993 = D 9007199254740992"
proof -
  have "isColumnChar (of_char CHR ''b'')" "isDigit (of_char CHR ''1'')" "isDigit (of_char CHR ''2'')"
    by (simp_all add: isColumnChar_def isDigit_def str_def)
  then show ?thesis
    using cellNameToCellPosition_iff [of "str ''b12''" "\<lparr>column = str ''b'', row = D 12\<rparr>" 12]
      nearestNumber_tie
    by (simp add: decimalValue_12 str_def)
qed

section \<open>Renaming a cell\<close>

lemma set_insertBy: "set (insertBy cmp a bs) = insert a (set bs)"
  by (induction bs) auto

lemma set_sortBy: "set (sortBy cmp ts) = set ts"
  by (induction ts) (simp_all add: sortBy_def set_insertBy)

lemma distinct_insertBy: "distinct (insertBy cmp a bs) \<longleftrightarrow> a \<notin> set bs \<and> distinct bs"
  by (induction bs) (auto simp: set_insertBy)

lemma distinct_sortBy: "distinct (sortBy cmp ts) \<longleftrightarrow> distinct ts"
proof (induction ts)
  case Nil
  show ?case by (simp add: sortBy_def)
next
  case (Cons t ts)
  have "sortBy cmp (t # ts) = insertBy cmp t (sortBy cmp ts)"
    by (simp add: sortBy_def)
  with Cons show ?case
    by (simp add: distinct_insertBy set_sortBy)
qed

text \<open>
  Sorting positions by a key that is never NaN, with the difference of the keys as the
  comparison: the result is in ascending order of the keys, equal keys in ascending order
  of the positions.
\<close>

lemma sorted_insertBy:
  fixes f :: "nat \<Rightarrow> number"
  assumes "\<forall>b\<in>set bs. f b \<noteq> NaN" and "f a \<noteq> NaN" and "\<forall>b\<in>set bs. a < b"
    and "sorted_wrt (\<lambda>u v. nlt (f u) (f v) \<or> (\<not> nlt (f v) (f u) \<and> u < v)) bs"
  shows "sorted_wrt (\<lambda>u v. nlt (f u) (f v) \<or> (\<not> nlt (f v) (f u) \<and> u < v))
    (insertBy (\<lambda>u v. nsub (f u) (f v)) a bs)"
  using assms
proof (induction bs)
  case Nil
  then show ?case by simp
next
  case (Cons b bs)
  show ?case
  proof (cases "nlt (f b) (f a)")
    case True
    then have ins: "insertBy (\<lambda>u v. nsub (f u) (f v)) a (b # bs) =
        b # insertBy (\<lambda>u v. nsub (f u) (f v)) a bs"
      by (simp add: nlt_zero_nsub)
    have "sorted_wrt (\<lambda>u v. nlt (f u) (f v) \<or> (\<not> nlt (f v) (f u) \<and> u < v))
        (insertBy (\<lambda>u v. nsub (f u) (f v)) a bs)"
      using Cons by simp
    then show ?thesis
      unfolding ins using Cons.prems(4) True by (simp add: set_insertBy)
  next
    case False
    then have ins: "insertBy (\<lambda>u v. nsub (f u) (f v)) a (b # bs) = a # b # bs"
      by (simp add: nlt_zero_nsub)
    have ab: "nlt (f a) (f b) \<or> (\<not> nlt (f b) (f a) \<and> a < b)"
      using False Cons.prems(3) by simp
    have "nlt (f a) (f z) \<or> (\<not> nlt (f z) (f a) \<and> a < z)" if z: "z \<in> set bs" for z
    proof -
      from Cons.prems(4) z have bz: "nlt (f b) (f z) \<or> (\<not> nlt (f z) (f b) \<and> b < z)"
        by simp
      have "\<not> nlt (f z) (f a)"
      proof
        assume "nlt (f z) (f a)"
        moreover have "f b \<noteq> NaN"
          using Cons.prems(1) by simp
        ultimately have "nlt (f z) (f b)"
          using False nlt_not_nlt_trans [of "f z" "f a" "f b"] by simp
        with bz show False
          by (auto dest: nlt_asym)
      qed
      moreover have "a < z"
        using Cons.prems(3) z by simp
      ultimately show ?thesis
        by simp
    qed
    then show ?thesis
      unfolding ins using Cons.prems(4) ab by simp
  qed
qed

lemma sorted_sortBy:
  fixes f :: "nat \<Rightarrow> number"
  assumes "\<forall>b\<in>set ts. f b \<noteq> NaN" and "sorted_wrt (<) ts"
  shows "sorted_wrt (\<lambda>u v. nlt (f u) (f v) \<or> (\<not> nlt (f v) (f u) \<and> u < v))
    (sortBy (\<lambda>u v. nsub (f u) (f v)) ts)"
  using assms
proof (induction ts)
  case Nil
  show ?case by (simp add: sortBy_def)
next
  case (Cons t ts)
  have step: "sortBy (\<lambda>u v. nsub (f u) (f v)) (t # ts) =
      insertBy (\<lambda>u v. nsub (f u) (f v)) t (sortBy (\<lambda>u v. nsub (f u) (f v)) ts)"
    by (simp add: sortBy_def)
  show ?case
    unfolding step
    using Cons by (intro sorted_insertBy) (auto simp: set_sortBy)
qed

lemma renameLoop_props:
  assumes "distinct js" and "\<forall>j\<in>set js. j < length cs"
  shows "length (renameLoop R js pos i cs) = length cs \<and>
    (\<forall>k<length js. renameLoop R js pos i cs ! (js ! k) =
        (cs ! (js ! k))\<lparr>cell_name := cascadeName R pos (i + k)\<rparr>) \<and>
    (\<forall>j. j \<notin> set js \<longrightarrow> renameLoop R js pos i cs ! j = cs ! j)"
  using assms
proof (induction js arbitrary: i cs)
  case Nil
  show ?case by simp
next
  case (Cons j js)
  let ?cs = "cs[j := (cs ! j)\<lparr>cell_name := cascadeName R pos i\<rparr>]"
  have run: "renameLoop R (j # js) pos i cs = renameLoop R js pos (i + 1) ?cs"
    by (simp add: cascadeName_def cellPositionToCellName_def)
  from Cons.prems have d: "distinct js" "j \<notin> set js" "j < length cs"
    and b: "\<forall>j\<in>set js. j < length ?cs"
    by auto
  from Cons.IH [OF d(1) b, of "i + 1"]
  have len: "length (renameLoop R js pos (i + 1) ?cs) = length cs"
    and upd: "\<And>k. k < length js \<Longrightarrow> renameLoop R js pos (i + 1) ?cs ! (js ! k) =
        (?cs ! (js ! k))\<lparr>cell_name := cascadeName R pos (i + 1 + k)\<rparr>"
    and oth: "\<And>j. j \<notin> set js \<Longrightarrow> renameLoop R js pos (i + 1) ?cs ! j = ?cs ! j"
    by auto
  have "renameLoop R js pos (i + 1) ?cs ! ((j # js) ! k) =
      (cs ! ((j # js) ! k))\<lparr>cell_name := cascadeName R pos (i + k)\<rparr>"
    if "k < length (j # js)" for k
  proof (cases k)
    case 0
    then show ?thesis using oth [OF d(2)] d(3) by simp
  next
    case (Suc k')
    with that have k': "k' < length js" by simp
    then have "js ! k' \<noteq> j" using d(2) by (metis nth_mem)
    then show ?thesis using upd [OF k'] Suc by simp
  qed
  moreover have "renameLoop R js pos (i + 1) ?cs ! j' = cs ! j'" if "j' \<notin> set (j # js)" for j'
    using that oth [of j'] by simp
  ultimately show ?case
    unfolding run using len by blast
qed

lemma alignedBelow_rect:
  "cell_rect c = cell_rect c' \<Longrightarrow> alignedBelow r c = alignedBelow r c'"
  by (simp add: alignedBelow_def)

lemma handleCellNameInput_None:
  "i < length (cells editor) \<Longrightarrow> cellNameToCellPosition newName = None \<Longrightarrow>
   cells (handleCellNameInput R i newName editor) =
     (cells editor)[i := (cells editor ! i)\<lparr>cell_name := newName\<rparr>]"
  by (simp add: handleCellNameInput_def Let_def)

lemma handleCellNameInput_Some:
  "i < length (cells editor) \<Longrightarrow> cellNameToCellPosition newName = Some pos \<Longrightarrow>
   cs = (cells editor)[i := (cells editor ! i)\<lparr>cell_name := newName\<rparr>] \<Longrightarrow>
   cells (handleCellNameInput R i newName editor) =
     renameLoop R
       (sortBy (\<lambda>a b. nsub (rect_y (cell_rect (cs ! a))) (rect_y (cell_rect (cs ! b))))
          (filter (\<lambda>j. alignedBelow (cell_rect (cs ! i)) (cs ! j)) [0..<length cs]))
       pos 0 cs"
  by (simp add: handleCellNameInput_def Let_def alignedBelow_def rectCenterX_def)

lemma cascadeName_exact:
  assumes "row pos = D (real n)" and "real (n + k + 1) \<le> 2 ^ 53"
  shows "cascadeName R pos k = column pos @ natToString (n + k + 1)"
proof -
  from assms(2) have "real_of_int (int (n + k + 1)) \<le> real_of_int (2 ^ 53)"
    by simp
  then have le: "int (n + k + 1) \<le> 2 ^ 53"
    by (simp only: of_int_le_iff)
  then have "int n \<le> 2 ^ 53" "int k \<le> 2 ^ 53" "int (n + k) < 2 ^ 53"
    by simp_all
  then have "real_of_int (int n) \<le> real_of_int (2 ^ 53)" "real_of_int (int k) \<le> real_of_int (2 ^ 53)"
    "real_of_int (int (n + k)) < real_of_int (2 ^ 53)"
    by (simp_all only: of_int_le_iff of_int_less_iff)
  then have b: "real n \<le> 2 ^ 53" "real k \<le> 2 ^ 53" "real (n + k) < 2 ^ 53"
    by simp_all
  then have "isDouble (real n)" "isDouble (real k)" "isDouble (real (n + k))"
    by (simp_all add: isDouble_of_nat del: of_nat_add)
  then have "nadd (D (real n)) (D (real k)) = D (real (n + k))"
    using nadd_D [of "real n" "real k"] by simp
  then show ?thesis
    using numberToString_succ [OF b(3), of R] by (simp add: cascadeName_def assms(1))
qed

text \<open>
  C10. The claim: renaming sets the name of the cell to the given string in all cases, and
  the cells below get the following rows without gaps. A cell of negative height lies
  below its own bottom, so it is part of its own cascade: renamed to \<open>a1\<close>, it ends with
  the name \<open>a2\<close>. And after renaming a cell to \<open>a9007199254740992\<close> the cell below it
  gets the same name \<open>a9007199254740992\<close>: the row is \<open>2^53\<close> and the sum \<open>2^53 + 1\<close> is
  rounded to \<open>2^53\<close>.
\<close>

theorem handleCellNameInput_renames_itself:
  "cell_name (cells (handleCellNameInput exampleRuntime 0 (str ''a1'') editorN) ! 0) = str ''a2'' \<and>
   map cell_name
     (cells (handleCellNameInput exampleRuntime 0 (str ''a9007199254740992'') editorW)) =
     [str ''a9007199254740992'', str ''a9007199254740992'']"
proof -
  have two: "natToString 2 = str ''2''"
    by (simp add: natToString.simps [of 2] digitChar_def str_def)
  have n2: "numberToString exampleRuntime (D 2) = str ''2''"
    using numberToString_nat [of 2 exampleRuntime] by (simp add: two)
  have 1: "cell_name (cells (handleCellNameInput exampleRuntime 0 (str ''a1'') editorN) ! 0) =
      str ''a2''"
    by (simp add: handleCellNameInput_def editorN_def parse_a1 Let_def sortBy_def D_eval
        cellPositionToCellName_def n2) (simp add: str_def)
  have 2: "map cell_name
     (cells (handleCellNameInput exampleRuntime 0 (str ''a9007199254740992'') editorW)) =
     [str ''a9007199254740992'', str ''a9007199254740992'']"
    by (simp add: handleCellNameInput_def editorW_def parse_big Let_def sortBy_def D_eval
        cellPositionToCellName_def nadd_tie numberToString_big) (simp add: str_def)
  from 1 2 show ?thesis
    by simp
qed

text \<open>
  C10, as the code has it. Let the renamed cell be a cell of the editor that is not itself
  aligned below its own rectangle (no cell of non-negative height is). Then
  \<open>handleCellNameInput\<close> keeps the number, the ids and the rectangles of the cells and
  sets the name of the cell to the given string. If the string does not parse, no other
  name changes. If it parses as \<open>pos\<close>, the other cells aligned below the renamed cell, in
  the order \<open>L\<close> of increasing top (equal tops in list order), get the names
  \<open>cascadeName R pos 0\<close>, \<open>cascadeName R pos 1\<close>, ...: the column of \<open>pos\<close> followed by
  the row plus the rank, computed and printed as a number, which are the decimal digits
  of the whole number \<open>row + rank\<close> as long as it is at most \<open>2^53\<close>. No other name
  changes.
\<close>

theorem handleCellNameInput_cascade:
  assumes i: "i < length (cells editor)"
    and self: "\<not> alignedBelow (cell_rect (cells editor ! i)) (cells editor ! i)"
  shows
    "length (cells (handleCellNameInput R i newName editor)) = length (cells editor) \<and>
     (\<forall>j<length (cells editor).
        cell_id (cells (handleCellNameInput R i newName editor) ! j) = cell_id (cells editor ! j) \<and>
        cell_rect (cells (handleCellNameInput R i newName editor) ! j) = cell_rect (cells editor ! j)) \<and>
     cell_name (cells (handleCellNameInput R i newName editor) ! i) = newName \<and>
     (cellNameToCellPosition newName = None \<longrightarrow>
        (\<forall>j<length (cells editor). j \<noteq> i \<longrightarrow>
           cell_name (cells (handleCellNameInput R i newName editor) ! j) =
             cell_name (cells editor ! j))) \<and>
     (\<forall>pos. cellNameToCellPosition newName = Some pos \<longrightarrow>
        (\<exists>L. distinct L \<and>
           set L = {j. j < length (cells editor) \<and> j \<noteq> i \<and>
                      alignedBelow (cell_rect (cells editor ! i)) (cells editor ! j)} \<and>
           sorted_wrt (topBefore (cells editor)) L \<and>
           (\<forall>k<length L.
              cell_name (cells (handleCellNameInput R i newName editor) ! (L ! k)) =
                cascadeName R pos k) \<and>
           (\<forall>j<length (cells editor). j \<noteq> i \<and> j \<notin> set L \<longrightarrow>
              cell_name (cells (handleCellNameInput R i newName editor) ! j) =
                cell_name (cells editor ! j)))) \<and>
     (\<forall>pos n k. row pos = D (real n) \<and> real (n + k + 1) \<le> 2 ^ 53 \<longrightarrow>
        cascadeName R pos k = column pos @ natToString (n + k + 1))"
proof -
  let ?cs = "cells editor"
  let ?r = "cell_rect (?cs ! i)"
  let ?out = "cells (handleCellNameInput R i newName editor)"
  define cs1 where "cs1 = ?cs[i := (?cs ! i)\<lparr>cell_name := newName\<rparr>]"
  have len1: "length cs1 = length ?cs"
    by (simp add: cs1_def)
  have rect1: "cell_rect (cs1 ! j) = cell_rect (?cs ! j)" if "j < length ?cs" for j
    using that by (cases "j = i") (simp_all add: cs1_def)
  have id1: "cell_id (cs1 ! j) = cell_id (?cs ! j)" if "j < length ?cs" for j
    using that by (cases "j = i") (simp_all add: cs1_def)
  have name1: "cell_name (cs1 ! i) = newName"
    using i by (simp add: cs1_def)
  have other1: "cs1 ! j = ?cs ! j" if "j \<noteq> i" for j
    using that by (simp add: cs1_def)
  have exact: "\<forall>pos n k. row pos = D (real n) \<and> real (n + k + 1) \<le> 2 ^ 53 \<longrightarrow>
        cascadeName R pos k = column pos @ natToString (n + k + 1)"
    using cascadeName_exact by blast
  show ?thesis
  proof (cases "cellNameToCellPosition newName")
    case None
    from handleCellNameInput_None [OF i None] have out: "?out = cs1"
      by (simp add: cs1_def)
    show ?thesis
      unfolding out using None len1 rect1 id1 name1 other1 exact by simp
  next
    case (Some pos)
    define f where "f = (\<lambda>j. rect_y (cell_rect (cs1 ! j)))"
    define A where "A = filter (\<lambda>j. alignedBelow ?r (?cs ! j)) [0..<length ?cs]"
    define L where "L = sortBy (\<lambda>a b. nsub (f a) (f b)) A"
    have "filter (\<lambda>j. alignedBelow (cell_rect (cs1 ! i)) (cs1 ! j)) [0..<length cs1] = A"
      unfolding A_def len1
      by (rule filter_cong) (auto simp: rect1 i alignedBelow_rect [OF rect1])
    with handleCellNameInput_Some [OF i Some cs1_def]
    have out: "?out = renameLoop R L pos 0 cs1"
      by (simp add: L_def f_def)
    have setA: "set A = {j. j < length ?cs \<and> alignedBelow ?r (?cs ! j)}"
      by (auto simp: A_def)
    have notself: "i \<notin> set A"
      using self by (simp add: setA)
    have setL: "set L = {j. j < length ?cs \<and> j \<noteq> i \<and> alignedBelow ?r (?cs ! j)}"
      using notself by (auto simp: L_def set_sortBy setA)
    have distL: "distinct L"
      by (simp add: L_def distinct_sortBy A_def)
    have finA: "\<forall>b\<in>set A. f b \<noteq> NaN"
    proof
      fix b
      assume "b \<in> set A"
      then have "b < length ?cs" "nlt (nadd (rect_y ?r) (rect_height ?r)) (rect_y (cell_rect (?cs ! b)))"
        by (simp_all add: setA alignedBelow_def)
      then have "nlt (nadd (rect_y ?r) (rect_height ?r)) (f b)"
        by (simp add: f_def rect1)
      then show "f b \<noteq> NaN"
        by auto
    qed
    have "sorted_wrt (<) A"
      unfolding A_def by (intro sorted_wrt_filter) simp
    from sorted_sortBy [OF finA this]
    have "sorted_wrt (\<lambda>u v. nlt (f u) (f v) \<or> (\<not> nlt (f v) (f u) \<and> u < v)) L"
      by (simp add: L_def)
    then have sortL: "sorted_wrt (topBefore ?cs) L"
      by (rule sorted_wrt_mono_rel [rotated]) (auto simp: topBefore_def f_def rect1 setL)
    have "\<forall>j\<in>set L. j < length cs1"
      by (simp add: setL len1)
    from renameLoop_props [OF distL this, of R pos 0]
    have len: "length ?out = length ?cs"
      and upd: "\<And>k. k < length L \<Longrightarrow> ?out ! (L ! k) = (cs1 ! (L ! k))\<lparr>cell_name := cascadeName R pos k\<rparr>"
      and oth: "\<And>j. j \<notin> set L \<Longrightarrow> ?out ! j = cs1 ! j"
      by (auto simp: out len1)
    have same: "cell_id (?out ! j) = cell_id (?cs ! j) \<and> cell_rect (?out ! j) = cell_rect (?cs ! j)"
      if j: "j < length ?cs" for j
    proof (cases "j \<in> set L")
      case True
      then obtain k where "k < length L" "L ! k = j"
        by (auto simp: in_set_conv_nth)
      with upd [of k] show ?thesis
        using j by (simp add: rect1 id1)
    next
      case False
      with oth [of j] show ?thesis
        using j by (simp add: rect1 id1)
    qed
    have "i \<notin> set L"
      by (simp add: setL)
    with oth [of i] have namei: "cell_name (?out ! i) = newName"
      by (simp add: name1)
    have rest: "cell_name (?out ! j) = cell_name (?cs ! j)" if "j \<noteq> i" "j \<notin> set L" for j
      using that oth [of j] other1 [of j] by simp
    have casc: "cell_name (?out ! (L ! k)) = cascadeName R pos k" if "k < length L" for k
      using upd [OF that] by simp
    have "\<exists>L. distinct L \<and>
        set L = {j. j < length ?cs \<and> j \<noteq> i \<and> alignedBelow ?r (?cs ! j)} \<and>
        sorted_wrt (topBefore ?cs) L \<and>
        (\<forall>k<length L. cell_name (?out ! (L ! k)) = cascadeName R pos k) \<and>
        (\<forall>j<length ?cs. j \<noteq> i \<and> j \<notin> set L \<longrightarrow> cell_name (?out ! j) = cell_name (?cs ! j))"
      using distL setL sortL casc rest by blast
    then show ?thesis
      using Some len same namei exact by simp
  qed
qed

lemma parse_b3: "cellNameToCellPosition (str ''b3'') = Some \<lparr>column = str ''b'', row = D 3\<rparr>"
  by (simp add: cellNameToCellPosition_def parseInt_def isColumnChar_def isDigit_def
      digitValue_def str_def toNumber_False)

theorem handleCellNameInput_cascade_witness:
  "0 < length (cells editorW) \<and>
   \<not> alignedBelow (cell_rect (cells editorW ! 0)) (cells editorW ! 0) \<and>
   cellNameToCellPosition (str ''b3'') = Some \<lparr>column = str ''b'', row = D (real 3)\<rparr> \<and>
   real (3 + 0 + 1) \<le> 2 ^ 53 \<and>
   cascadeName exampleRuntime \<lparr>column = str ''b'', row = D (real 3)\<rparr> 0 = str ''b4'' \<and>
   map cell_name (cells (handleCellNameInput exampleRuntime 0 (str ''b3'') editorW)) =
     [str ''b3'', str ''b4'']"
proof -
  have h: "0 < length (cells editorW)"
    "\<not> alignedBelow (cell_rect (cells editorW ! 0)) (cells editorW ! 0)"
    by (simp_all add: editorW_def alignedBelow_def rectCenterX_def D_eval)
  have four: "natToString 4 = str ''4''"
    by (simp add: natToString.simps [of 4] digitChar_def str_def)
  have n4: "numberToString exampleRuntime (D 4) = str ''4''"
    using numberToString_nat [of 4 exampleRuntime] by (simp add: four)
  have out: "map cell_name (cells (handleCellNameInput exampleRuntime 0 (str ''b3'') editorW)) =
      [cell_name (cells (handleCellNameInput exampleRuntime 0 (str ''b3'') editorW) ! 0), str ''b4'']"
    by (simp add: handleCellNameInput_def editorW_def parse_b3 Let_def sortBy_def D_eval
      cellPositionToCellName_def n4) (simp add: str_def)
  note C = handleCellNameInput_cascade [OF h, of exampleRuntime "str ''b3''"]
  from C have "cell_name (cells (handleCellNameInput exampleRuntime 0 (str ''b3'') editorW) ! 0) =
      str ''b3''"
    by blast
  moreover have "row \<lparr>column = str ''b'', row = D (real 3)\<rparr> = D (real 3) \<and> real (3 + 0 + 1) \<le> 2 ^ 53"
    by simp
  then have "cascadeName exampleRuntime \<lparr>column = str ''b'', row = D (real 3)\<rparr> 0 =
      column \<lparr>column = str ''b'', row = D (real 3)\<rparr> @ natToString (3 + 0 + 1)"
    by (rule C [THEN conjunct2, THEN conjunct2, THEN conjunct2, THEN conjunct2, THEN conjunct2,
          rule_format])
  ultimately show ?thesis
    using out h parse_b3 by (simp add: four) (simp add: str_def)
qed

section \<open>Document extraction\<close>

lemma findRects_loop_None:
  "findRects_loop R ds rects = None \<longleftrightarrow> (\<exists>d\<in>set ds. parseSVG R d = None)"
  by (induction ds arbitrary: rects) (auto split: option.splits)

lemma findRects_loop_Some:
  "findRects_loop R ds rects = Some out \<Longrightarrow>
     \<exists>paths. map (parseSVG R) ds = map Some paths \<and>
       out = rects @ concat (map (pathToRects R) paths)"
proof (induction ds arbitrary: rects)
  case Nil
  then show ?case by simp
next
  case (Cons d ds)
  from Cons.prems obtain path where
    d: "parseSVG R d = Some path"
    and run: "findRects_loop R ds (rects @ pathToRects R path) = Some out"
    by (auto split: option.splits)
  from Cons.IH [OF run] obtain paths where
    "map (parseSVG R) ds = map Some paths"
    "out = (rects @ pathToRects R path) @ concat (map (pathToRects R) paths)"
    by blast
  then have "map (parseSVG R) (d # ds) = map Some (path # paths) \<and>
      out = rects @ concat (map (pathToRects R) (path # paths))"
    using d by simp
  then show ?case by blast
qed

lemma tryParseFloat_None: "tryParseFloat R t = None \<longleftrightarrow> parseFloat R t = NaN"
  by (simp add: tryParseFloat_def Let_def)

lemma tryParseFloat_Some: "tryParseFloat R t = Some a \<longleftrightarrow> parseFloat R t = a \<and> a \<noteq> NaN"
  by (auto simp: tryParseFloat_def Let_def)

lemma length_4: "length ts = 4 \<Longrightarrow> \<exists>a b c d. ts = [a, b, c, d]"
  by (cases ts; cases "tl ts"; cases "tl (tl ts)"; cases "tl (tl (tl ts))") auto

lemma getViewBox_None:
  "getViewBox R node = None \<longleftrightarrow>
     viewBoxProperty node = None \<or>
     (\<exists>s. viewBoxProperty node = Some s \<and> malformedExtent R s)"
proof (cases "viewBoxProperty node")
  case None
  then show ?thesis by (simp add: getViewBox_def)
next
  case (Some s)
  show ?thesis
  proof (cases "length (extentTokens s) = 4")
    case True
    then obtain a b c d where t: "extentTokens s = [a, b, c, d]"
      using length_4 by blast
    show ?thesis
      using Some t
      by (auto simp: getViewBox_def malformedExtent_def extentTokens_def tryParseFloat_None
          tryParseFloat_Some split: option.splits)
  next
    case False
    then have "getViewBox R node = None"
      using Some
      by (auto simp: getViewBox_def extentTokens_def split: list.splits)
    with False Some show ?thesis
      by (simp add: malformedExtent_def)
  qed
qed

lemma getViewBox_Some:
  assumes "getViewBox R node = Some viewBox"
  shows "\<exists>s. viewBoxProperty node = Some s \<and>
    viewBox = \<lparr>rect_x = parseFloat R (extentTokens s ! 0),
               rect_y = parseFloat R (extentTokens s ! 1),
               rect_width = nsub (parseFloat R (extentTokens s ! 2)) (parseFloat R (extentTokens s ! 0)),
               rect_height = nsub (parseFloat R (extentTokens s ! 3)) (parseFloat R (extentTokens s ! 1))\<rparr>"
proof -
  from assms obtain s where s: "viewBoxProperty node = Some s"
    by (auto simp: getViewBox_def split: option.splits)
  with assms getViewBox_None [of R node] have "length (extentTokens s) = 4"
    by (auto simp: malformedExtent_def)
  then obtain a b c d where t: "extentTokens s = [a, b, c, d]"
    using length_4 by blast
  from assms s t show ?thesis
    by (auto simp: getViewBox_def extentTokens_def tryParseFloat_Some split: option.splits)
qed

text \<open>
  C6. \<open>parseSvg\<close> fails exactly when the document does not parse, or the path data of
  some path node collected from the document does not parse into commands, or the
  coordinate extent is absent, malformed or has an origin other than \<open>(0,0)\<close>. A result
  is always complete: the rectangles of all collected paths, in order, with the width and
  the height of the extent.
\<close>

theorem parseSvg_all_or_nothing:
  "(parseSvg R svg = None \<longleftrightarrow>
      parse R svg = None \<or>
      (\<exists>root. parse R svg = Some root \<and>
         ((\<exists>d\<in>set (getPathDs root). parseSVG R d = None) \<or>
          viewBoxProperty root = None \<or>
          (\<exists>s. viewBoxProperty root = Some s \<and>
             (malformedExtent R s \<or> nonOriginExtent R s))))) \<and>
   (\<forall>result. parseSvg R svg = Some result \<longrightarrow>
      (\<exists>root paths s.
         parse R svg = Some root \<and>
         map (parseSVG R) (getPathDs root) = map Some paths \<and>
         viewBoxProperty root = Some s \<and>
         result = \<lparr>svg_rects = concat (map (pathToRects R) paths),
                   svg_width = nsub (parseFloat R (extentTokens s ! 2)) (parseFloat R (extentTokens s ! 0)),
                   svg_height = nsub (parseFloat R (extentTokens s ! 3)) (parseFloat R (extentTokens s ! 1))\<rparr>))"
proof (cases "parse R svg")
  case None
  then show ?thesis by (simp add: parseSvg_def)
next
  case root: (Some root)
  show ?thesis
  proof (cases "findRects R root")
    case None
    then have "\<exists>d\<in>set (getPathDs root). parseSVG R d = None"
      by (simp add: findRects_def findRects_loop_None)
    then show ?thesis
      using root None by (auto simp: parseSvg_def)
  next
    case rects: (Some rects)
    then obtain paths where paths: "map (parseSVG R) (getPathDs root) = map Some paths"
      "rects = concat (map (pathToRects R) paths)"
      using findRects_loop_Some [of R "getPathDs root" "[]" rects]
      by (auto simp: findRects_def)
    from rects have ok: "\<not> (\<exists>d\<in>set (getPathDs root). parseSVG R d = None)"
      using findRects_loop_None [of R "getPathDs root" "[]"] by (simp add: findRects_def)
    show ?thesis
    proof (cases "getViewBox R root")
      case None
      then show ?thesis
        using root rects ok getViewBox_None [of R root]
        by (auto simp: parseSvg_def)
    next
      case vb: (Some viewBox)
      from getViewBox_Some [OF vb] obtain s where s: "viewBoxProperty root = Some s"
        and v: "viewBox = \<lparr>rect_x = parseFloat R (extentTokens s ! 0),
               rect_y = parseFloat R (extentTokens s ! 1),
               rect_width = nsub (parseFloat R (extentTokens s ! 2)) (parseFloat R (extentTokens s ! 0)),
               rect_height = nsub (parseFloat R (extentTokens s ! 3)) (parseFloat R (extentTokens s ! 1))\<rparr>"
        by blast
      from vb s getViewBox_None [of R root] have wf: "\<not> malformedExtent R s"
        by auto
      show ?thesis
      proof (cases "nonOriginExtent R s")
        case True
        then have "parseSvg R svg = None"
          using root rects vb v by (simp add: parseSvg_def nonOriginExtent_def)
        then show ?thesis
          using root s True by simp
      next
        case False
        then have res: "parseSvg R svg =
            Some \<lparr>svg_rects = rects, svg_width = rect_width viewBox,
                   svg_height = rect_height viewBox\<rparr>"
          using root rects vb v by (simp add: parseSvg_def nonOriginExtent_def)
        show ?thesis
          unfolding res using root s ok wf False paths v by simp
      qed
    qed
  qed
qed

end
